theory Spec2Isabelle
  imports Complex_Main
begin

section \<open>AV1 video converter: the conversion pipeline\<close>

text \<open>
  A shallow embedding of the conversion pipeline of the AV1 video converter: the
  job queue of the Svelte front end (\<^verbatim>\<open>frontend/src/App.svelte\<close>) and the probe,
  supervisor, progress monitor and file-name sanitiser of the Go back end
  (\<^verbatim>\<open>app.go\<close>).

  Go strings are byte strings: \<^typ>\<open>string\<close> (a list of 8-bit \<^typ>\<open>char\<close>) models
  them byte for byte, so \<^term>\<open>length\<close> is Go's \<^verbatim>\<open>len\<close>.
\<close>

subsection \<open>Floating point values\<close>

text \<open>
  Go's \<^verbatim>\<open>float64\<close> and JavaScript's numbers are IEEE 754 binary64 values. A finite
  value is kept as the real number it denotes; the two infinities and NaN are values of
  their own. The two zeros are identified: the program only compares the values it
  computes, and \<^verbatim>\<open>-0 == +0\<close>.
\<close>

datatype f64 = Fin real | PInf | NInf | NaN

subsection \<open>The job queue of the front end\<close>

text \<open>
  \<^verbatim>\<open>VideoInfo\<close> is the descriptor the back end returns for each selected file
  (\<^verbatim>\<open>app.go\<close>, lines 25-31) and the front end queues.
\<close>

record VideoInfo =
  fullPath :: string
  duration :: string
  frameCount :: int
  codec :: string
  size' :: string

text \<open>
  The component state of \<^verbatim>\<open>App.svelte\<close> (lines 11-19) that the queue operations
  read or write. \<open>progressVideo\<close> is \<^verbatim>\<open>null\<close> (\<^term>\<open>None\<close>) or the descriptor of
  the job being converted. \<open>convertCalls\<close> records, in order, the calls of the back
  end's \<^verbatim>\<open>ConvertVideo\<close> the front end has issued: input path, destination folder
  and frame count.
\<close>

record ui_state =
  selectedVideos :: "VideoInfo list"
  progressVideo :: "VideoInfo option"
  destinationFolder :: string
  conversionProgress :: f64
  conversionSpeed :: string
  errorMessage :: string
  showErrorPopup :: bool
  convertCalls :: "(string \<times> string \<times> int) list"

text \<open>
  \<^verbatim>\<open>startConversion\<close> (lines 127-142) up to its \<^verbatim>\<open>await\<close>: an object is truthy, a
  string is truthy when it is not empty.
\<close>

definition startConversion :: "ui_state \<Rightarrow> ui_state" where
  "startConversion s =
     (case progressVideo s of
        None \<Rightarrow> s
      | Some v \<Rightarrow>
          if destinationFolder s \<noteq> [] then
            s\<lparr>conversionProgress := Fin 0, conversionSpeed := [],
              convertCalls := convertCalls s @ [(fullPath v, destinationFolder s, frameCount v)]\<rparr>
          else s)"

text \<open>
  \<^verbatim>\<open>updateProgressVideo\<close> (lines 117-123): \<^verbatim>\<open>shift()\<close> removes and returns the head
  of the array.
\<close>

definition updateProgressVideo :: "ui_state \<Rightarrow> ui_state" where
  "updateProgressVideo s =
     (if progressVideo s = None \<and> selectedVideos s \<noteq> [] then
        startConversion
          (s\<lparr>progressVideo := Some (hd (selectedVideos s)),
             selectedVideos := tl (selectedVideos s)\<rparr>)
      else s)"

text \<open>
  The handlers of the events of the back end (lines 47-75) and the \<^verbatim>\<open>catch\<close> block of
  \<^verbatim>\<open>startConversion\<close> (lines 135-140), which runs when the call of \<^verbatim>\<open>ConvertVideo\<close>
  is rejected with an error.
\<close>

definition showError :: "ui_state \<Rightarrow> string \<Rightarrow> ui_state" where
  "showError s message = s\<lparr>errorMessage := message, showErrorPopup := True\<rparr>"

definition on_conversion_progress :: "ui_state \<Rightarrow> f64 \<Rightarrow> string \<Rightarrow> ui_state" where
  "on_conversion_progress s progress speed =
     s\<lparr>conversionProgress := progress, conversionSpeed := speed\<rparr>"

definition on_conversion_complete :: "ui_state \<Rightarrow> string \<Rightarrow> ui_state" where
  "on_conversion_complete s outputPath = updateProgressVideo (s\<lparr>progressVideo := None\<rparr>)"

definition on_conversion_error :: "ui_state \<Rightarrow> string \<Rightarrow> ui_state" where
  "on_conversion_error s error =
     updateProgressVideo
       (s\<lparr>errorMessage := error, showErrorPopup := True, progressVideo := None\<rparr>)"

definition on_conversion_next :: "ui_state \<Rightarrow> ui_state" where
  "on_conversion_next s = updateProgressVideo s"

definition on_ConvertVideo_rejected :: "ui_state \<Rightarrow> string \<Rightarrow> ui_state" where
  "on_ConvertVideo_rejected s message =
     updateProgressVideo
       ((showError s (''Conversion Error: '' @ message))\<lparr>progressVideo := None\<rparr>)"

text \<open>
  The scenario of the specification: jobs \<open>A\<close> (100 frames) and \<open>B\<close> (50 frames)
  are pending, nothing runs and the destination is \<^verbatim>\<open>/out\<close>. The first call starts
  \<open>A\<close> and leaves \<open>B\<close> pending; the second call changes nothing.
\<close>

definition videoA :: VideoInfo where
  "videoA = \<lparr>fullPath = ''/in/A.mov'', duration = ''00:00:04:00'', frameCount = 100,
     codec = ''h264'', size' = ''1.00 MB''\<rparr>"

definition videoB :: VideoInfo where
  "videoB = \<lparr>fullPath = ''/in/B.mov'', duration = ''00:00:02:00'', frameCount = 50,
     codec = ''h264'', size' = ''0.50 MB''\<rparr>"

definition idle_AB :: ui_state where
  "idle_AB = \<lparr>selectedVideos = [videoA, videoB], progressVideo = None,
     destinationFolder = ''/out'', conversionProgress = Fin 0, conversionSpeed = [],
     errorMessage = [], showErrorPopup = False, convertCalls = []\<rparr>"

subsection \<open>Strings, runes and UTF-8\<close>

text \<open>
  Go's \<^verbatim>\<open>range\<close> over a string, \<^verbatim>\<open>strings.Map\<close> and \<^verbatim>\<open>strings.TrimSpace\<close> read a
  string rune by rune, decoding UTF-8 as \<^verbatim>\<open>utf8.DecodeRuneInString\<close> does. The
  program never computes with the number of a rune; it compares runes and writes them
  back. A rune is therefore represented by the bytes \<^verbatim>\<open>utf8.AppendRune\<close> writes for
  it: the decoder accepts the shortest encoding of a code point only, which is the
  encoding the encoder writes, so a validly encoded rune is the bytes it was read from.
  A byte that starts no valid encoding decodes to \<^verbatim>\<open>utf8.RuneError\<close> (U+FFFD) with
  width 1, and U+FFFD is written back as the three bytes EF BF BD.
\<close>

type_synonym rune = string

definition byte :: "char \<Rightarrow> nat" where
  "byte c = of_char c"

definition RuneError :: rune where
  "RuneError = [CHR 0xEF, CHR 0xBF, CHR 0xBD]"

text \<open>
  The table \<^verbatim>\<open>first\<close> of package \<^verbatim>\<open>unicode/utf8\<close>: the length of the encoding a
  first byte announces (1 for ASCII, 0 for a byte that starts no encoding), and the
  range \<^verbatim>\<open>acceptRanges\<close> allows for the second byte.
\<close>

definition rune_size :: "nat \<Rightarrow> nat" where
  "rune_size b0 =
     (if b0 < 0x80 then 1
      else if b0 < 0xC2 then 0
      else if b0 < 0xE0 then 2
      else if b0 < 0xF0 then 3
      else if b0 < 0xF5 then 4
      else 0)"

definition accept_lo :: "nat \<Rightarrow> nat" where
  "accept_lo b0 = (if b0 = 0xE0 then 0xA0 else if b0 = 0xF0 then 0x90 else 0x80)"

definition accept_hi :: "nat \<Rightarrow> nat" where
  "accept_hi b0 = (if b0 = 0xED then 0x9F else if b0 = 0xF4 then 0x8F else 0xBF)"

definition continuation :: "char \<Rightarrow> bool" where
  "continuation c = (0x80 \<le> byte c \<and> byte c \<le> 0xBF)"

text \<open>
  \<^verbatim>\<open>utf8.DecodeRuneInString\<close>: the rune at the start of a string and its width in
  bytes; \<^verbatim>\<open>(RuneError, 0)\<close> for the empty string and \<^verbatim>\<open>(RuneError, 1)\<close> for an
  invalid or truncated encoding.
\<close>

fun DecodeRuneInString :: "string \<Rightarrow> rune \<times> nat" where
  "DecodeRuneInString [] = (RuneError, 0)"
| "DecodeRuneInString (c # cs) =
     (let sz = rune_size (byte c) in
      if sz = 1 then ([c], 1)
      else if sz = 0 then (RuneError, 1)
      else if length (c # cs) < sz then (RuneError, 1)
      else if byte (cs ! 0) < accept_lo (byte c) \<or> accept_hi (byte c) < byte (cs ! 0)
        then (RuneError, 1)
      else if sz \<le> 2 then (take 2 (c # cs), 2)
      else if \<not> continuation (cs ! 1) then (RuneError, 1)
      else if sz \<le> 3 then (take 3 (c # cs), 3)
      else if \<not> continuation (cs ! 2) then (RuneError, 1)
      else (take 4 (c # cs), 4))"

text \<open>
  The runes of a string in order, as \<^verbatim>\<open>for _, c := range s\<close> yields them: each step
  advances by the width of the rune decoded.
\<close>

fun runes :: "string \<Rightarrow> rune list" where
  "runes [] = []"
| "runes (c # cs) =
     fst (DecodeRuneInString (c # cs))
       # runes (drop (snd (DecodeRuneInString (c # cs)) - 1) cs)"

text \<open>\<^verbatim>\<open>utf8.RuneCountInString\<close> and \<^verbatim>\<open>utf8.ValidString\<close>.\<close>

definition RuneCountInString :: "string \<Rightarrow> nat" where
  "RuneCountInString s = length (runes s)"

fun ValidString :: "string \<Rightarrow> bool" where
  "ValidString [] = True"
| "ValidString (c # cs) =
     (if DecodeRuneInString (c # cs) = (RuneError, 1) then False
      else ValidString (drop (snd (DecodeRuneInString (c # cs)) - 1) cs))"

text \<open>
  \<^verbatim>\<open>strings.Map\<close> for a mapping that returns no negative rune (the only use in the
  program): every rune of the string is replaced by its image, written in UTF-8.
\<close>

definition strings_Map :: "(rune \<Rightarrow> rune) \<Rightarrow> string \<Rightarrow> string" where
  "strings_Map mapping s = concat (map mapping (runes s))"

text \<open>\<^verbatim>\<open>strings.HasSuffix\<close>, \<^verbatim>\<open>strings.TrimSuffix\<close> and \<^verbatim>\<open>strings.Join\<close>.\<close>

definition HasSuffix :: "string \<Rightarrow> string \<Rightarrow> bool" where
  "HasSuffix s suffix =
     (length suffix \<le> length s \<and> drop (length s - length suffix) s = suffix)"

definition TrimSuffix :: "string \<Rightarrow> string \<Rightarrow> string" where
  "TrimSuffix s suffix =
     (if HasSuffix s suffix then take (length s - length suffix) s else s)"

fun strings_Join :: "string list \<Rightarrow> string \<Rightarrow> string" where
  "strings_Join [] sep = []"
| "strings_Join [e] sep = e"
| "strings_Join (e # es) sep = e @ sep @ strings_Join es sep"

subsection \<open>File paths\<close>

text \<open>
  Package \<^verbatim>\<open>path/filepath\<close> on Unix (the program is a macOS application): the
  separator is the slash and there are no volume names.
\<close>

definition IsPathSeparator :: "char \<Rightarrow> bool" where
  "IsPathSeparator c = (c = CHR ''/'')"

text \<open>
  \<^verbatim>\<open>filepath.Base\<close>: the last element of the path, trailing separators removed first;
  \<^verbatim>\<open>.\<close> for the empty path and a single separator for a path of separators only.
\<close>

definition filepath_Base :: "string \<Rightarrow> string" where
  "filepath_Base path =
     (if path = [] then ''.''
      else
        let stripped = rev (dropWhile IsPathSeparator (rev path));
            element = rev (takeWhile (\<lambda>c. \<not> IsPathSeparator c) (rev stripped))
        in if element = [] then ''/'' else element)"

text \<open>
  \<^verbatim>\<open>filepath.Ext\<close>: the suffix beginning at the final dot of the last element, empty
  if that element has no dot. The scan runs from the end of the path and stops at a
  separator.
\<close>

fun Ext_scan :: "string \<Rightarrow> string \<Rightarrow> string" where
  "Ext_scan [] acc = []"
| "Ext_scan (c # cs) acc =
     (if IsPathSeparator c then []
      else if c = CHR ''.'' then c # acc
      else Ext_scan cs (c # acc))"

definition filepath_Ext :: "string \<Rightarrow> string" where
  "filepath_Ext path = Ext_scan (rev path) []"

text \<open>
  \<^verbatim>\<open>filepath.Clean\<close>: the elements of the path between separators are read from the
  left; an empty element and \<^verbatim>\<open>.\<close> are dropped, \<^verbatim>\<open>..\<close> removes the element before it
  when there is one that is not \<^verbatim>\<open>..\<close> itself, is dropped at the root of a rooted path
  and is kept otherwise. The elements kept are held last first.
\<close>

fun split_sep :: "string \<Rightarrow> string list" where
  "split_sep [] = [[]]"
| "split_sep (c # cs) =
     (if IsPathSeparator c then [] # split_sep cs
      else (case split_sep cs of
              [] \<Rightarrow> [[c]]
            | e # es \<Rightarrow> (c # e) # es))"

definition clean_step :: "bool \<Rightarrow> string list \<Rightarrow> string \<Rightarrow> string list" where
  "clean_step rooted kept e =
     (if e = [] \<or> e = ''.'' then kept
      else if e = ''..'' then
        (case kept of
           [] \<Rightarrow> if rooted then [] else [''..'']
         | t # ts \<Rightarrow> if t = ''..'' then ''..'' # kept else ts)
      else e # kept)"

definition filepath_Clean :: "string \<Rightarrow> string" where
  "filepath_Clean path =
     (if path = [] then ''.''
      else
        let rooted = IsPathSeparator (hd path);
            kept = foldl (clean_step rooted) [] (split_sep path);
            body = strings_Join (rev kept) ''/''
        in if rooted then CHR ''/'' # body
           else if body = [] then ''.''
           else body)"

text \<open>
  \<^verbatim>\<open>filepath.Join\<close>: the elements from the first non-empty one on, joined by the
  separator and cleaned; the empty string if every element is empty.
\<close>

fun filepath_Join :: "string list \<Rightarrow> string" where
  "filepath_Join [] = []"
| "filepath_Join (e # es) =
     (if e \<noteq> [] then filepath_Clean (strings_Join (e # es) ''/'')
      else filepath_Join es)"

subsection \<open>The output file name\<close>

text \<open>
  \<^verbatim>\<open>sanitizeFileName\<close> (\<^verbatim>\<open>app.go\<close>, lines 566-583). The mapping replaces the nine
  runes \<^verbatim>\<open>/ \ : * ? " < > |\<close> by the underscore and returns every other rune as it is;
  \<^verbatim>\<open>len\<close> and the slice \<^verbatim>\<open>fileName[:200]\<close> count bytes.
\<close>

definition invalid_rune :: "rune \<Rightarrow> bool" where
  "invalid_rune r =
     (r = ''/'' \<or> r = [CHR 0x5C] \<or> r = '':'' \<or> r = ''*'' \<or> r = ''?''
      \<or> r = [CHR 0x22] \<or> r = ''<'' \<or> r = ''>'' \<or> r = ''|'')"

definition sanitize_rune :: "rune \<Rightarrow> rune" where
  "sanitize_rune r = (if invalid_rune r then ''_'' else r)"

definition sanitizeFileName :: "string \<Rightarrow> string" where
  "sanitizeFileName fileName =
     (let mapped = strings_Map sanitize_rune fileName
      in if length mapped > 200 then take 200 mapped else mapped)"

text \<open>
  The head of \<^verbatim>\<open>ConvertVideo\<close> (lines 411-414): the sanitised name of the source
  without its extension, and the output path.
\<close>

definition outputFileName :: "string \<Rightarrow> string" where
  "outputFileName inputPath =
     (let base = filepath_Base inputPath
      in sanitizeFileName (TrimSuffix base (filepath_Ext base)))"

definition outputPath :: "string \<Rightarrow> string \<Rightarrow> string" where
  "outputPath inputPath outputFolder =
     filepath_Join [outputFolder, outputFileName inputPath @ ''_av1.mp4'']"

text \<open>
  The nine characters as bytes (each is an ASCII character, written in UTF-8 as one
  byte), and the replacement byte by byte.
\<close>

definition invalid_byte :: "char \<Rightarrow> bool" where
  "invalid_byte c = invalid_rune [c]"

definition sanitize_byte :: "char \<Rightarrow> char" where
  "sanitize_byte c = (if invalid_byte c then CHR ''_'' else c)"

text \<open>A string of ASCII bytes only.\<close>

definition ascii :: "string \<Rightarrow> bool" where
  "ascii s = (\<forall>c\<in>set s. byte c < 0x80)"

text \<open>
  Two properties of the runes the decoder returns, used in the proofs: a rune decodes
  to itself whatever follows it, and it is either one ASCII byte or a sequence of bytes
  from 0x80 on.
\<close>

definition encoded_rune :: "rune \<Rightarrow> bool" where
  "encoded_rune r = (r \<noteq> [] \<and> (\<forall>t. DecodeRuneInString (r @ t) = (r, length r)))"

definition rune_shape :: "rune \<Rightarrow> bool" where
  "rune_shape r = ((\<exists>c. r = [c] \<and> byte c < 0x80) \<or> (\<forall>b\<in>set r. 0x80 \<le> byte b))"

text \<open>
  The value of \<^verbatim>\<open>outputFileName\<close> after line 412: the base name of the source
  without its extension, not yet sanitised.
\<close>

definition source_stem :: "string \<Rightarrow> string" where
  "source_stem inputPath =
     (let base = filepath_Base inputPath in TrimSuffix base (filepath_Ext base))"

text \<open>
  The derivation in the words of the specification, for comparison with the code: every
  occurrence of the nine characters is replaced and the result is cut to 200
  \<^emph>\<open>characters\<close> (runes), where the code cuts to 200 bytes.
\<close>

definition sanitize_characters :: "string \<Rightarrow> string" where
  "sanitize_characters name = concat (take 200 (map sanitize_rune (runes name)))"

definition claimed_outputPath :: "string \<Rightarrow> string \<Rightarrow> string" where
  "claimed_outputPath inputPath outputFolder =
     filepath_Join [outputFolder, sanitize_characters (source_stem inputPath) @ ''_av1.mp4'']"

text \<open>
  Inputs of the examples: the letter e with acute accent (U+00E9, the bytes C3 A9), a
  name of 199 ASCII letters followed by it, and a name of 250 such letters.
\<close>

definition e_acute :: rune where
  "e_acute = [CHR 0xC3, CHR 0xA9]"

definition long_name :: string where
  "long_name = replicate 199 (CHR ''a'') @ e_acute"

definition accented_name :: string where
  "accented_name = concat (replicate 250 e_acute)"

subsection \<open>Arithmetic on floating point values\<close>

text \<open>
  Rounding to the nearest binary64 value, ties to the value with an even significand.
  \<open>flog2 n\<close> is the position of the highest bit of \<open>n\<close> and \<open>ilog2 x\<close> the binary
  exponent of a positive real: \<open>2 powi ilog2 x \<le> x < 2 powi (ilog2 x + 1)\<close>. A
  binary64 value is an integer of at most 53 bits times a power of two whose exponent is
  at least -1074; a result of magnitude \<open>2 ^ 1024\<close> or more is an infinity.
\<close>

fun flog2 :: "nat \<Rightarrow> nat" where
  "flog2 n = (if n < 2 then 0 else Suc (flog2 (n div 2)))"

declare flog2.simps [simp del]

definition ilog2 :: "real \<Rightarrow> int" where
  "ilog2 x =
     (if 1 \<le> x then int (flog2 (nat \<lfloor>x\<rfloor>))
      else - int (Suc (flog2 (nat \<lceil>1 / x\<rceil> - 1))))"

definition round_half_even :: "real \<Rightarrow> int" where
  "round_half_even q =
     (let m = \<lfloor>q\<rfloor>; r = q - of_int m
      in if r < 1 / 2 then m
         else if 1 / 2 < r then m + 1
         else if even m then m else m + 1)"

definition round64 :: "real \<Rightarrow> f64" where
  "round64 x =
     (if x = 0 then Fin 0
      else
        let e = max (ilog2 \<bar>x\<bar> - 52) (- 1074);
            y = of_int (round_half_even (\<bar>x\<bar> / 2 powi e)) * 2 powi e
        in if 2 ^ 1024 \<le> y then (if 0 < x then PInf else NInf)
           else Fin (sgn x * y))"

text \<open>
  The conversion \<^verbatim>\<open>float64(n)\<close> of an integer, division, multiplication and the
  comparisons. A comparison with NaN is false. The quotient of a finite value by zero
  is an infinity, or NaN when the dividend is zero as well: the compiler emits the
  IEEE 754 division and no run-time check, so nothing panics. The only zero the program
  divides by is \<^verbatim>\<open>float64(0)\<close>, the positive zero, so the infinity has the sign of the
  dividend.
\<close>

definition float64 :: "int \<Rightarrow> f64" where
  "float64 n = round64 (of_int n)"

fun fdiv :: "f64 \<Rightarrow> f64 \<Rightarrow> f64" where
  "fdiv NaN y = NaN"
| "fdiv x NaN = NaN"
| "fdiv (Fin a) (Fin b) =
     (if b = 0 then (if a = 0 then NaN else if 0 < a then PInf else NInf)
      else round64 (a / b))"
| "fdiv (Fin a) PInf = Fin 0"
| "fdiv (Fin a) NInf = Fin 0"
| "fdiv PInf (Fin b) = (if 0 \<le> b then PInf else NInf)"
| "fdiv NInf (Fin b) = (if 0 \<le> b then NInf else PInf)"
| "fdiv PInf PInf = NaN"
| "fdiv PInf NInf = NaN"
| "fdiv NInf PInf = NaN"
| "fdiv NInf NInf = NaN"

fun fmul :: "f64 \<Rightarrow> f64 \<Rightarrow> f64" where
  "fmul NaN y = NaN"
| "fmul x NaN = NaN"
| "fmul (Fin a) (Fin b) = round64 (a * b)"
| "fmul (Fin a) PInf = (if a = 0 then NaN else if 0 < a then PInf else NInf)"
| "fmul (Fin a) NInf = (if a = 0 then NaN else if 0 < a then NInf else PInf)"
| "fmul PInf (Fin b) = (if b = 0 then NaN else if 0 < b then PInf else NInf)"
| "fmul NInf (Fin b) = (if b = 0 then NaN else if 0 < b then NInf else PInf)"
| "fmul PInf PInf = PInf"
| "fmul PInf NInf = NInf"
| "fmul NInf PInf = NInf"
| "fmul NInf NInf = PInf"

fun flt :: "f64 \<Rightarrow> f64 \<Rightarrow> bool" where
  "flt NaN y = False"
| "flt x NaN = False"
| "flt (Fin a) (Fin b) = (a < b)"
| "flt (Fin a) PInf = True"
| "flt (Fin a) NInf = False"
| "flt PInf y = False"
| "flt NInf (Fin b) = True"
| "flt NInf PInf = True"
| "flt NInf NInf = False"

definition fgt :: "f64 \<Rightarrow> f64 \<Rightarrow> bool" where
  "fgt x y = flt y x"

definition fle :: "f64 \<Rightarrow> f64 \<Rightarrow> bool" where
  "fle x y = (flt x y \<or> (x = y \<and> x \<noteq> NaN))"

subsection \<open>Parsing numbers\<close>

text \<open>
  \<^verbatim>\<open>strconv.ParseFloat(s, 64)\<close> on a string of decimal digits, which is what the
  monitor passes: the nearest binary64 value, and the range error when that is an
  infinity. The rest of the grammar of \<^verbatim>\<open>ParseFloat\<close> (signs, fractions, exponents,
  hexadecimal, \<^verbatim>\<open>inf\<close>, \<^verbatim>\<open>nan\<close>) is not modelled: a string that is not a run of
  digits is a syntax error here.
\<close>

datatype NumError = ErrSyntax | ErrRange

definition re_digit :: "char \<Rightarrow> bool" where
  "re_digit c = (0x30 \<le> byte c \<and> byte c \<le> 0x39)"

definition decimal :: "string \<Rightarrow> nat" where
  "decimal s = foldl (\<lambda>n c. 10 * n + (byte c - 0x30)) 0 s"

definition ParseFloat :: "string \<Rightarrow> NumError + f64" where
  "ParseFloat s =
     (if s = [] \<or> \<not> list_all re_digit s then Inl ErrSyntax
      else (case round64 (real (decimal s)) of
              PInf \<Rightarrow> Inl ErrRange
            | v \<Rightarrow> Inr v))"

subsection \<open>Trimming white space\<close>

text \<open>
  \<^verbatim>\<open>unicode.IsSpace\<close>: the ASCII white space (tab, line feed, vertical tab, form
  feed, carriage return, space), U+0085, U+00A0 and the characters of the Unicode
  category Z and property Pattern_White_Space U+1680, U+2000 to U+200A, U+2028, U+2029,
  U+202F, U+205F and U+3000, each given by its UTF-8 encoding.
\<close>

definition IsSpace :: "rune \<Rightarrow> bool" where
  "IsSpace r =
     (r = [CHR 0x09] \<or> r = [CHR 0x0A] \<or> r = [CHR 0x0B] \<or> r = [CHR 0x0C]
      \<or> r = [CHR 0x0D] \<or> r = [CHR 0x20]
      \<or> r = [CHR 0xC2, CHR 0x85] \<or> r = [CHR 0xC2, CHR 0xA0]
      \<or> r = [CHR 0xE1, CHR 0x9A, CHR 0x80]
      \<or> (\<exists>c. r = [CHR 0xE2, CHR 0x80, c] \<and> 0x80 \<le> byte c \<and> byte c \<le> 0x8A)
      \<or> r = [CHR 0xE2, CHR 0x80, CHR 0xA8] \<or> r = [CHR 0xE2, CHR 0x80, CHR 0xA9]
      \<or> r = [CHR 0xE2, CHR 0x80, CHR 0xAF] \<or> r = [CHR 0xE2, CHR 0x81, CHR 0x9F]
      \<or> r = [CHR 0xE3, CHR 0x80, CHR 0x80])"

text \<open>
  \<^verbatim>\<open>utf8.DecodeLastRuneInString\<close>: the rune at the end of a string and its width. It
  steps back from the last byte over at most three bytes to the nearest byte that can
  start an encoding, decodes from there, and reports \<^verbatim>\<open>(RuneError, 1)\<close> unless the
  encoding ends exactly at the end of the string.
\<close>

definition RuneStart :: "char \<Rightarrow> bool" where
  "RuneStart c = (\<not> continuation c)"

definition last_rune_start :: "string \<Rightarrow> nat" where
  "last_rune_start s =
     (let end = length s; lim = end - 4
      in if lim + 2 \<le> end \<and> RuneStart (s ! (end - 2)) then end - 2
         else if lim + 3 \<le> end \<and> RuneStart (s ! (end - 3)) then end - 3
         else lim)"

definition DecodeLastRuneInString :: "string \<Rightarrow> rune \<times> nat" where
  "DecodeLastRuneInString s =
     (if s = [] then (RuneError, 0)
      else if byte (last s) < 0x80 then ([last s], 1)
      else
        let start = last_rune_start s;
            d = DecodeRuneInString (drop start s)
        in if start + snd d \<noteq> length s then (RuneError, 1) else d)"

text \<open>
  \<^verbatim>\<open>strings.TrimSpace\<close>: the string without the white space runes at its start and at
  its end (\<^verbatim>\<open>TrimLeftFunc\<close> decodes forwards, \<^verbatim>\<open>TrimRightFunc\<close> backwards).
\<close>

fun TrimLeftSpace :: "string \<Rightarrow> string" where
  "TrimLeftSpace [] = []"
| "TrimLeftSpace (c # cs) =
     (if IsSpace (fst (DecodeRuneInString (c # cs)))
      then TrimLeftSpace (drop (snd (DecodeRuneInString (c # cs)) - 1) cs)
      else c # cs)"

function TrimRightSpace :: "string \<Rightarrow> string" where
  "TrimRightSpace s =
     (if s \<noteq> [] \<and> IsSpace (fst (DecodeLastRuneInString s))
      then TrimRightSpace (take (length s - snd (DecodeLastRuneInString s)) s)
      else s)"
  by pat_completeness auto
termination
proof (relation "measure length")
  show "wf (measure length)"
    by simp
next
  fix s :: string
  assume a: "s \<noteq> [] \<and> IsSpace (fst (DecodeLastRuneInString s))"
  have "1 \<le> snd (DecodeRuneInString t)" if "t \<noteq> []" for t
    using that by (cases t) (auto simp: Let_def DecodeRuneInString.simps)
  moreover have "last_rune_start s < length s"
    using a by (auto simp: last_rune_start_def Let_def)
  ultimately have "1 \<le> snd (DecodeLastRuneInString s)"
    using a by (auto simp: DecodeLastRuneInString_def Let_def)
  with a show "(take (length s - snd (DecodeLastRuneInString s)) s, s) \<in> measure length"
    by (cases s) auto
qed

declare TrimRightSpace.simps [simp del]

definition TrimSpace :: "string \<Rightarrow> string" where
  "TrimSpace s = TrimRightSpace (TrimLeftSpace s)"

subsection \<open>Reading the log\<close>

text \<open>
  \<^verbatim>\<open>bufio.Scanner\<close> with its default split function \<^verbatim>\<open>ScanLines\<close>, run over the
  bytes read up to the end of the file: the lines between line feeds, each without one
  trailing carriage return; what follows the last line feed is a line too unless it is
  empty. \<open>current\<close> holds the bytes of the line being read, the last one first.
\<close>

definition dropCR :: "string \<Rightarrow> string" where
  "dropCR data = (if data \<noteq> [] \<and> last data = CHR 0x0D then butlast data else data)"

fun ScanLines :: "string \<Rightarrow> string \<Rightarrow> string list" where
  "ScanLines [] current = (if current = [] then [] else [dropCR (rev current)])"
| "ScanLines (c # cs) current =
     (if c = CHR 0x0A then dropCR (rev current) # ScanLines cs []
      else ScanLines cs (c # current))"

text \<open>
  The loop of lines 517-520: \<^verbatim>\<open>lastLine\<close> is the last token, the empty string when
  there is none.
\<close>

definition lastLine_of :: "string \<Rightarrow> string" where
  "lastLine_of data =
     (let tokens = ScanLines data [] in if tokens = [] then [] else last tokens)"

text \<open>\<^verbatim>\<open>strings.Contains\<close>.\<close>

fun Contains :: "string \<Rightarrow> string \<Rightarrow> bool" where
  "Contains [] substr = (substr = [])"
| "Contains (c # cs) substr = (take (length substr) (c # cs) = substr \<or> Contains cs substr)"

text \<open>
  The two regular expressions of lines 498-499 and \<^verbatim>\<open>FindStringSubmatch\<close>: the first
  submatch of the leftmost match, \<^term>\<open>None\<close> when there is no match (the slice
  returned is then empty, otherwise it has two elements). \<^verbatim>\<open>\s\<close> is tab, line feed,
  form feed, carriage return or space and \<^verbatim>\<open>\d\<close> an ASCII digit; the repetitions are
  greedy. \<^verbatim>\<open>frame=\s*(\d+)\<close> matches at a position where \<^verbatim>\<open>frame=\<close> stands, followed by
  white space and then a digit; \<^verbatim>\<open>speed=(\S+)\<close> where \<^verbatim>\<open>speed=\<close> stands, followed by
  a byte that is not white space.
\<close>

definition re_space :: "char \<Rightarrow> bool" where
  "re_space c =
     (c = CHR 0x09 \<or> c = CHR 0x0A \<or> c = CHR 0x0C \<or> c = CHR 0x0D \<or> c = CHR 0x20)"

fun frameRegex :: "string \<Rightarrow> string option" where
  "frameRegex [] = None"
| "frameRegex (c # cs) =
     (let digits = takeWhile re_digit (dropWhile re_space (drop 6 (c # cs)))
      in if take 6 (c # cs) = ''frame='' \<and> digits \<noteq> [] then Some digits
         else frameRegex cs)"

fun speedRegex :: "string \<Rightarrow> string option" where
  "speedRegex [] = None"
| "speedRegex (c # cs) =
     (let token = takeWhile (\<lambda>b. \<not> re_space b) (drop 6 (c # cs))
      in if take 6 (c # cs) = ''speed='' \<and> token \<noteq> [] then Some token
         else speedRegex cs)"

subsection \<open>The progress monitor\<close>

text \<open>
  The events the back end emits with \<^verbatim>\<open>runtime.EventsEmit\<close>:
  \<^verbatim>\<open>conversion:progress\<close> with a percentage and a speed, \<^verbatim>\<open>conversion:complete\<close>
  with the output path, \<^verbatim>\<open>conversion:error\<close> with a message, and
  \<^verbatim>\<open>conversion:next\<close>.
\<close>

datatype event =
    Progress f64 string
  | Complete string
  | ConversionError string
  | Next

text \<open>
  Lines 528-544 of \<^verbatim>\<open>monitorProgress\<close>: the percentage and the speed computed from
  the last line, \<^term>\<open>None\<close> when the line has no frame marker, when one of the two
  expressions does not match, or when the frame number does not parse (the tick then
  ends with \<^verbatim>\<open>continue\<close>).
\<close>

definition line_progress :: "int \<Rightarrow> string \<Rightarrow> (f64 \<times> string) option" where
  "line_progress totalFrames lastLine =
     (if Contains lastLine ''frame='' then
        (case (frameRegex lastLine, speedRegex lastLine) of
           (Some frameMatch, Some speedMatch) \<Rightarrow>
             (case ParseFloat frameMatch of
                Inl err \<Rightarrow> None
              | Inr currentFrame \<Rightarrow>
                  let speed = TrimSpace speedMatch;
                      progress = fmul (fdiv currentFrame (float64 totalFrames)) (Fin 100)
                  in Some (if fgt progress (Fin 100) then Fin 100 else progress, speed))
         | _ \<Rightarrow> None)
      else None)"

text \<open>
  What one poll of the monitor finds: the content of the log file at that time, and
  whether reading it fails, after how many bytes. The file is taken as it is at the
  start of the poll; bytes the encoder appends during the poll are seen by the next one.
\<close>

record observation =
  log_content :: string
  read_fails_after :: "nat option"

text \<open>
  The state the loop of \<^verbatim>\<open>monitorProgress\<close> keeps from one poll to the next: the
  read position of the open log file and \<^verbatim>\<open>lastProgress\<close>.
\<close>

record monitor_state =
  position :: nat
  lastProgress :: f64

text \<open>
  \<^verbatim>\<open>file.Seek(-1024, 2)\<close> (line 515): the position 1024 bytes before the end of the
  file. A position before the start of the file is an error of the system call, which
  leaves the position where it was; the call's results are not looked at.
\<close>

definition Seek_from_end :: "nat \<Rightarrow> nat \<Rightarrow> nat \<Rightarrow> nat" where
  "Seek_from_end back file_size pos = (if back \<le> file_size then file_size - back else pos)"

text \<open>
  One poll, the \<^verbatim>\<open>default\<close> branch of the loop (lines 513-557): the new state and the
  events emitted. The scanner reads from the position of the file to its end. When the
  read fails \<^verbatim>\<open>scanner.Err()\<close> is not nil and the poll ends.
\<close>

definition tick :: "int \<Rightarrow> monitor_state \<Rightarrow> observation \<Rightarrow> monitor_state \<times> event list" where
  "tick totalFrames st ob =
     (let pos = Seek_from_end 1024 (length (log_content ob)) (position st);
          data = drop pos (log_content ob)
      in case read_fails_after ob of
           Some k \<Rightarrow> (st\<lparr>position := pos + min k (length data)\<rparr>, [])
         | None \<Rightarrow>
             let st' = st\<lparr>position := pos + length data\<rparr>
             in (case line_progress totalFrames (lastLine_of data) of
                   None \<Rightarrow> (st', [])
                 | Some (progress, speed) \<Rightarrow>
                     if fgt progress (lastProgress st)
                     then (st'\<lparr>lastProgress := progress\<rparr>, [Progress progress speed])
                     else (st', [])))"

text \<open>The polls made one after the other, and the events of all of them in order.\<close>

fun ticks :: "int \<Rightarrow> monitor_state \<Rightarrow> observation list \<Rightarrow> monitor_state \<times> event list" where
  "ticks totalFrames st [] = (st, [])"
| "ticks totalFrames st (ob # obs) =
     (let (st', es) = tick totalFrames st ob;
          (st'', es') = ticks totalFrames st' obs
      in (st'', es @ es'))"

text \<open>
  \<^verbatim>\<open>monitorProgress\<close> (lines 486-561), for a run in which the channel \<^verbatim>\<open>done\<close> is
  found closed after the polls \<open>obs\<close>: the events it emits. When the log file cannot be
  opened it returns at once. Otherwise \<^verbatim>\<open>lastProgress\<close> starts at 0 and the file is
  read from its start; when \<^verbatim>\<open>done\<close> is closed the final sample is emitted, and the
  function returns.
\<close>

definition monitor_start :: monitor_state where
  "monitor_start = \<lparr>position = 0, lastProgress = Fin 0\<rparr>"

definition monitorProgress :: "bool \<Rightarrow> int \<Rightarrow> observation list \<Rightarrow> event list" where
  "monitorProgress opened totalFrames obs =
     (if \<not> opened then []
      else snd (ticks totalFrames monitor_start obs) @ [Progress (Fin 100) []])"

text \<open>The percentages of the progress events of a list of events, in order.\<close>

fun percentages :: "event list \<Rightarrow> f64 list" where
  "percentages [] = []"
| "percentages (Progress p s # es) = p # percentages es"
| "percentages (e # es) = percentages es"

subsection \<open>Inputs of the examples\<close>

text \<open>
  A poll that reads the given content without error, and a log that grows from poll to
  poll: a line without progress, a progress line at frame 25, nothing new, a progress
  line at frame 50.
\<close>

definition obs_of :: "string \<Rightarrow> observation" where
  "obs_of content = \<lparr>log_content = content, read_fails_after = None\<rparr>"

definition banner_line :: string where
  "banner_line = ''ffmpeg version 6.0'' @ [CHR 0x0A]"

definition frame25_line :: string where
  "frame25_line = ''frame=   25 fps=25 q=30.0 speed=1.0x'' @ [CHR 0x0A]"

definition frame50_line :: string where
  "frame50_line = ''frame=   50 fps=25 q=30.0 speed=1.2x'' @ [CHR 0x0A]"

definition sample_run :: "observation list" where
  "sample_run =
     [obs_of banner_line,
      obs_of (banner_line @ frame25_line),
      obs_of (banner_line @ frame25_line),
      obs_of (banner_line @ frame25_line @ frame50_line)]"

text \<open>The ceiling of lines 542-544, named for the statements below.\<close>

definition ceiling100 :: "f64 \<Rightarrow> f64" where
  "ceiling100 p = (if fgt p (Fin 100) then Fin 100 else p)"

text \<open>A progress line whose frame number has 310 digits.\<close>

definition huge_line :: string where
  "huge_line = ''frame='' @ replicate 310 (CHR ''9'') @ '' speed=1x''"

text \<open>
  A log shorter than 1024 bytes seen twice: first when the encoder has written the
  start of a progress line only, then when it has written the rest of the line.
\<close>

definition partial_log :: string where
  "partial_log = ''frame=   25 fps=25 ''"

definition grown_log :: string where
  "grown_log = partial_log @ ''q=30.0 speed=1.0x''"

subsection \<open>The conversion supervisor\<close>

text \<open>
  What the system does during one call of \<^verbatim>\<open>ConvertVideo\<close>: the error, if any, of
  creating the output directory (\<^verbatim>\<open>os.MkdirAll\<close>), of creating the log file
  (\<^verbatim>\<open>os.Create\<close>), of starting the encoder (\<^verbatim>\<open>cmd.Start\<close>) and of waiting for it
  (\<^verbatim>\<open>cmd.Wait\<close>, which fails when the encoder exits with a status other than zero),
  each given by its message; whether the monitor can open the log file; and what the
  monitor finds on its polls before it finds the channel \<^verbatim>\<open>done\<close> closed.
\<close>

record convert_env =
  mkdir_error :: "string option"
  create_error :: "string option"
  start_error :: "string option"
  wait_error :: "string option"
  log_opened :: bool
  polls :: "observation list"

text \<open>
  What a call of \<^verbatim>\<open>ConvertVideo\<close> does itself: the error it returns (\<^term>\<open>None\<close> for
  \<^verbatim>\<open>nil\<close>), the events it emits in order, how many times it starts the encoder, and
  whether it starts the monitor.
\<close>

record convert_result =
  returned :: "string option"
  emitted :: "event list"
  launches :: nat
  monitored :: bool

text \<open>
  \<^verbatim>\<open>ConvertVideo\<close> (lines 408-481). \<^verbatim>\<open>fmt.Errorf\<close> with \<^verbatim>\<open>%v\<close> puts the message of
  the error after the text. Both branches after \<^verbatim>\<open>cmd.Wait\<close> close \<^verbatim>\<open>done\<close>.
\<close>

definition ConvertVideo :: "convert_env \<Rightarrow> string \<Rightarrow> string \<Rightarrow> int \<Rightarrow> convert_result" where
  "ConvertVideo env inputPath outputFolder totalFrames =
     (case mkdir_error env of
        Some err \<Rightarrow>
          \<lparr>returned = Some (''failed to create output directory: '' @ err), emitted = [],
           launches = 0, monitored = False\<rparr>
      | None \<Rightarrow>
     (case create_error env of
        Some err \<Rightarrow>
          \<lparr>returned = Some (''failed to create log file: '' @ err), emitted = [],
           launches = 0, monitored = False\<rparr>
      | None \<Rightarrow>
     (case start_error env of
        Some err \<Rightarrow>
          \<lparr>returned = Some (''failed to start FFmpeg: '' @ err), emitted = [],
           launches = 1, monitored = False\<rparr>
      | None \<Rightarrow>
     (case wait_error env of
        Some err \<Rightarrow>
          \<lparr>returned = Some (''FFmpeg error: '' @ err), emitted = [ConversionError err],
           launches = 1, monitored = True\<rparr>
      | None \<Rightarrow>
          \<lparr>returned = None,
           emitted = [Complete (outputPath inputPath outputFolder), Next],
           launches = 1, monitored = True\<rparr>))))"




subsection \<open>The clock of a call\<close>













subsection \<open>Calls of the examples\<close>

text \<open>
  A successful call whose monitor sees the log of the examples, the same call when the
  monitor cannot open the log file, and two calls that fail.
\<close>

definition success_env :: convert_env where
  "success_env = \<lparr>mkdir_error = None, create_error = None, start_error = None,
     wait_error = None, log_opened = True, polls = sample_run\<rparr>"



definition exit_failure_env :: convert_env where
  "exit_failure_env = success_env\<lparr>wait_error := Some ''exit status 1''\<rparr>"

definition running_A :: ui_state where
  "running_A = updateProgressVideo idle_AB"




subsection \<open>The front end when a call ends\<close>

text \<open>
  The handler the front end runs for an event (lines 47-75).
\<close>

fun handle_event :: "ui_state \<Rightarrow> event \<Rightarrow> ui_state" where
  "handle_event s (Progress progress speed) = on_conversion_progress s progress speed"
| "handle_event s (Complete path) = on_conversion_complete s path"
| "handle_event s (ConversionError error) = on_conversion_error s error"
| "handle_event s Next = on_conversion_next s"

text \<open>
  What the end of a call of \<^verbatim>\<open>ConvertVideo\<close> does to the front end: the handlers of
  the events the call emitted run in the order of the events, and when the call returned
  an error the promise of \<^verbatim>\<open>startConversion\<close> is rejected and its \<^verbatim>\<open>catch\<close> block
  runs. The samples of the monitor only set the progress shown; they are left out.
\<close>

definition call_finished :: "ui_state \<Rightarrow> convert_result \<Rightarrow> ui_state" where
  "call_finished s r =
     (let s' = foldl handle_event s (emitted r)
      in case returned r of
           None \<Rightarrow> s'
         | Some message \<Rightarrow> on_ConvertVideo_rejected s' message)"

text \<open>
  The front end together with the number of its calls of \<^verbatim>\<open>ConvertVideo\<close> that have
  returned. The calls in flight are those issued and not returned: each is a job the
  back end is converting.
\<close>

record frontend =
  ui :: ui_state
  returned_calls :: nat

definition in_flight :: "frontend \<Rightarrow> nat" where
  "in_flight fe = length (convertCalls (ui fe)) - returned_calls fe"

definition call_returns :: "frontend \<Rightarrow> convert_result \<Rightarrow> frontend" where
  "call_returns fe r =
     \<lparr>ui = call_finished (ui fe) r, returned_calls = Suc (returned_calls fe)\<rparr>"

text \<open>
  Jobs \<open>A\<close>, \<open>B\<close> and \<open>C\<close> (25 frames) selected with the destination \<^verbatim>\<open>/out\<close>, and the
  front end after it has started \<open>A\<close>.
\<close>

definition videoC :: VideoInfo where
  "videoC = \<lparr>fullPath = ''/in/C.mov'', duration = ''00:00:01:00'', frameCount = 25,
     codec = ''h264'', size' = ''0.25 MB''\<rparr>"

definition idle_ABC :: ui_state where
  "idle_ABC = idle_AB\<lparr>selectedVideos := [videoA, videoB, videoC]\<rparr>"

definition converting_A :: frontend where
  "converting_A = \<lparr>ui = updateProgressVideo idle_ABC, returned_calls = 0\<rparr>"

subsection \<open>The media prober\<close>

text \<open>
  \<^verbatim>\<open>strconv.Atoi\<close> for a 64-bit \<^verbatim>\<open>int\<close>, as \<^verbatim>\<open>getVideoInfo\<close> uses it: the value
  returned, the error being dropped. A string that is not an optional sign followed by
  decimal digits gives 0; a number out of range gives the nearest bound.
\<close>

definition Atoi :: "string \<Rightarrow> int" where
  "Atoi s =
     (let neg = (s \<noteq> [] \<and> hd s = CHR ''-'');
          digits = (if s \<noteq> [] \<and> (hd s = CHR ''-'' \<or> hd s = CHR ''+'') then tl s else s)
      in if digits = [] \<or> \<not> list_all re_digit digits then 0
         else if neg then - min (int (decimal digits)) (2 ^ 63)
         else min (int (decimal digits)) (2 ^ 63 - 1))"

text \<open>
  The standard output of the metadata tool as \<^verbatim>\<open>json.Unmarshal\<close> reads it into the
  structure of lines 307-317. A member of a JSON object stands to the field it is decoded
  into in one of four ways: the object has no such member, the member is \<^verbatim>\<open>null\<close>, it
  has a value of the JSON type the field takes, or it has a value of another JSON type.
  Members the structure has no field for are skipped by the decoder and are left out
  here. A document in which a member occurs twice, or once more in other letter case,
  is not covered.
\<close>

datatype 'a member = Absent | Null | Member 'a | Mistyped

record stream_doc =
  codec_name :: "string member"
  nb_frames :: "string member"
  avg_frame_rate :: "string member"

datatype stream_element = StreamObject stream_doc | StreamNull | StreamMistyped

record format_doc =
  format_duration :: "string member"
  format_size :: "string member"

record probe_doc =
  streams :: "stream_element list member"
  format :: "format_doc member"

datatype stdout_doc = NotJSON | DocObject probe_doc | DocNull | DocMistyped

text \<open>
  The run of the metadata tool: \<^verbatim>\<open>cmd.Run\<close> returns an error (the tool cannot be
  started, or exits with a status other than zero), given with what the tool wrote to
  its standard error, or it succeeds with a standard output.
\<close>

datatype probe_run = RunFailed string string | RunSucceeded stdout_doc

text \<open>The structure \<^verbatim>\<open>result\<close> of lines 307-317.\<close>

record stream_result =
  CodecName :: string
  NbFrames :: string
  AvgFrameRate :: string

record format_result =
  Duration :: string
  Size :: string

record probe_result =
  Streams :: "stream_result list"
  Format :: format_result

text \<open>
  \<^verbatim>\<open>json.Unmarshal\<close> into that structure. A string field keeps its zero value, the
  empty string, when the member is absent or \<^verbatim>\<open>null\<close>; \<^verbatim>\<open>null\<close> as an element of the
  array gives a stream of zero values, and as the array itself an empty slice. A value of
  the wrong type anywhere makes \<^verbatim>\<open>Unmarshal\<close> return a type error (it goes on decoding,
  but \<^verbatim>\<open>getVideoInfo\<close> gives up on any error); a text that is not JSON is a syntax
  error.
\<close>

datatype json_error = SyntaxError | UnmarshalTypeError

fun decode_string :: "string member \<Rightarrow> string option" where
  "decode_string Absent = Some []"
| "decode_string Null = Some []"
| "decode_string (Member s) = Some s"
| "decode_string Mistyped = None"

fun decode_stream :: "stream_element \<Rightarrow> stream_result option" where
  "decode_stream (StreamObject d) =
     (case (decode_string (codec_name d), decode_string (nb_frames d),
            decode_string (avg_frame_rate d)) of
        (Some c, Some n, Some r) \<Rightarrow> Some \<lparr>CodecName = c, NbFrames = n, AvgFrameRate = r\<rparr>
      | _ \<Rightarrow> None)"
| "decode_stream StreamNull = Some \<lparr>CodecName = [], NbFrames = [], AvgFrameRate = []\<rparr>"
| "decode_stream StreamMistyped = None"

fun decode_streams :: "stream_element list member \<Rightarrow> stream_result list option" where
  "decode_streams Absent = Some []"
| "decode_streams Null = Some []"
| "decode_streams (Member elements) = those (map decode_stream elements)"
| "decode_streams Mistyped = None"

fun decode_format :: "format_doc member \<Rightarrow> format_result option" where
  "decode_format Absent = Some \<lparr>Duration = [], Size = []\<rparr>"
| "decode_format Null = Some \<lparr>Duration = [], Size = []\<rparr>"
| "decode_format (Member d) =
     (case (decode_string (format_duration d), decode_string (format_size d)) of
        (Some t, Some z) \<Rightarrow> Some \<lparr>Duration = t, Size = z\<rparr>
      | _ \<Rightarrow> None)"
| "decode_format Mistyped = None"

fun Unmarshal :: "stdout_doc \<Rightarrow> json_error + probe_result" where
  "Unmarshal NotJSON = Inl SyntaxError"
| "Unmarshal DocNull = Inr \<lparr>Streams = [], Format = \<lparr>Duration = [], Size = []\<rparr>\<rparr>"
| "Unmarshal DocMistyped = Inl UnmarshalTypeError"
| "Unmarshal (DocObject d) =
     (case (decode_streams (streams d), decode_format (format d)) of
        (Some s, Some f) \<Rightarrow> Inr \<lparr>Streams = s, Format = f\<rparr>
      | _ \<Rightarrow> Inl UnmarshalTypeError)"

text \<open>
  The two strings of the descriptor that are for display only are computed with Go's
  parsing and formatting of floating point numbers (lines 329-341 and 348), which are
  not modelled: the time code, from the duration and the frame rate, and the size in
  megabytes, from the size in bytes, are parameters.
\<close>

record formatting =
  timecode :: "string \<Rightarrow> string \<Rightarrow> string"
  megabytes :: "string \<Rightarrow> string"

text \<open>
  \<^verbatim>\<open>getVideoInfo\<close> (lines 292-350): the error, or the descriptor of the file.
\<close>

datatype probe_error = FFprobeError string string | JSONError json_error | NoStreams

definition getVideoInfo :: "formatting \<Rightarrow> string \<Rightarrow> probe_run \<Rightarrow> probe_error + VideoInfo" where
  "getVideoInfo fm filePath run =
     (case run of
        RunFailed err stderr \<Rightarrow> Inl (FFprobeError err stderr)
      | RunSucceeded stdout \<Rightarrow>
          (case Unmarshal stdout of
             Inl err \<Rightarrow> Inl (JSONError err)
           | Inr result \<Rightarrow>
               if length (Streams result) = 0 then Inl NoStreams
               else Inr \<lparr>fullPath = filePath,
                         duration = timecode fm (Duration (Format result))
                                      (AvgFrameRate (Streams result ! 0)),
                         frameCount = Atoi (NbFrames (Streams result ! 0)),
                         codec = CodecName (Streams result ! 0),
                         size' = megabytes fm (Size (Format result))\<rparr>))"

text \<open>
  The conditions of failure in the words of the specification, read off the document:
  the number of media streams, and whether some value has a type the structure cannot
  take.
\<close>

fun stream_count :: "stdout_doc \<Rightarrow> nat" where
  "stream_count (DocObject d) = (case streams d of Member elements \<Rightarrow> length elements | _ \<Rightarrow> 0)"
| "stream_count doc = 0"

fun string_mistyped :: "string member \<Rightarrow> bool" where
  "string_mistyped Mistyped = True"
| "string_mistyped m = False"

fun stream_mistyped :: "stream_element \<Rightarrow> bool" where
  "stream_mistyped (StreamObject d) =
     (string_mistyped (codec_name d) \<or> string_mistyped (nb_frames d)
      \<or> string_mistyped (avg_frame_rate d))"
| "stream_mistyped StreamNull = False"
| "stream_mistyped StreamMistyped = True"

fun doc_mistyped :: "stdout_doc \<Rightarrow> bool" where
  "doc_mistyped (DocObject d) =
     ((case streams d of
         Mistyped \<Rightarrow> True
       | Member elements \<Rightarrow> list_ex stream_mistyped elements
       | _ \<Rightarrow> False)
      \<or> (case format d of
            Mistyped \<Rightarrow> True
          | Member fd \<Rightarrow> string_mistyped (format_duration fd) \<or> string_mistyped (format_size fd)
          | _ \<Rightarrow> False))"
| "doc_mistyped DocMistyped = True"
| "doc_mistyped doc = False"

text \<open>
  Documents of the examples: what the tool prints for a file with one video stream, and
  the same with the number of frames given as a JSON number instead of a string. The
  formatting used in the examples returns the strings as they are.
\<close>

definition h264_stream :: stream_doc where
  "h264_stream = \<lparr>codec_name = Member ''h264'', nb_frames = Member ''100'',
     avg_frame_rate = Member ''25/1''\<rparr>"

definition good_doc :: stdout_doc where
  "good_doc = DocObject \<lparr>streams = Member [StreamObject h264_stream],
     format = Member \<lparr>format_duration = Member ''4.000000'', format_size = Member ''1048576''\<rparr>\<rparr>"

definition mistyped_doc :: stdout_doc where
  "mistyped_doc = DocObject \<lparr>streams = Member [StreamObject (h264_stream\<lparr>nb_frames := Mistyped\<rparr>)],
     format = Member \<lparr>format_duration = Member ''4.000000'', format_size = Member ''1048576''\<rparr>\<rparr>"

definition plain_formatting :: formatting where
  "plain_formatting = \<lparr>timecode = (\<lambda>d r. d), megabytes = (\<lambda>z. z)\<rparr>"
section \<open>The job queue of the front end\<close>

subsection \<open>The guard of the queue\<close>

lemma startConversion_progressVideo:
  "progressVideo (startConversion s) = progressVideo s"
  by (simp add: startConversion_def split: option.splits)

lemma startConversion_selectedVideos:
  "selectedVideos (startConversion s) = selectedVideos s"
  by (simp add: startConversion_def split: option.splits)

lemma startConversion_calls_le:
  "length (convertCalls (startConversion s)) \<le> Suc (length (convertCalls s))"
  by (simp add: startConversion_def split: option.splits)

lemma updateProgressVideo_running:
  "progressVideo s \<noteq> None \<Longrightarrow> updateProgressVideo s = s"
  unfolding updateProgressVideo_def by (cases "progressVideo s") simp_all

lemma updateProgressVideo_empty:
  "selectedVideos s = [] \<Longrightarrow> updateProgressVideo s = s"
  by (simp add: updateProgressVideo_def)

lemma updateProgressVideo_idle:
  assumes "progressVideo s = None" and "selectedVideos s \<noteq> []"
  shows "progressVideo (updateProgressVideo s) = Some (hd (selectedVideos s))"
    and "selectedVideos (updateProgressVideo s) = tl (selectedVideos s)"
  using assms
  by (simp_all add: updateProgressVideo_def startConversion_progressVideo
      startConversion_selectedVideos)

lemma updateProgressVideo_twice:
  "updateProgressVideo (updateProgressVideo s) = updateProgressVideo s"
proof (cases "progressVideo s = None \<and> selectedVideos s \<noteq> []")
  case True
  then have "progressVideo (updateProgressVideo s) \<noteq> None"
    by (simp add: updateProgressVideo_idle)
  then show ?thesis
    by (rule updateProgressVideo_running)
next
  case False
  then have "updateProgressVideo s = s"
    unfolding updateProgressVideo_def by (cases "progressVideo s") simp_all
  then show ?thesis
    by simp
qed

lemma updateProgressVideo_calls_le:
  "length (convertCalls (updateProgressVideo s)) \<le> Suc (length (convertCalls s))"
  by (simp add: updateProgressVideo_def startConversion_def split: option.splits)

text \<open>
  When it starts a job, \<open>updateProgressVideo\<close> issues one call of \<^verbatim>\<open>ConvertVideo\<close>, for
  the head of the pending list and the destination folder; otherwise it issues none.
\<close>

lemma updateProgressVideo_starts_head:
  assumes "progressVideo s = None" and "selectedVideos s \<noteq> []" and "destinationFolder s \<noteq> []"
  shows "convertCalls (updateProgressVideo s)
           = convertCalls s @ [(fullPath (hd (selectedVideos s)), destinationFolder s,
                                frameCount (hd (selectedVideos s)))]"
  using assms by (simp add: updateProgressVideo_def startConversion_def)

lemma updateProgressVideo_no_call:
  assumes "progressVideo s \<noteq> None \<or> selectedVideos s = [] \<or> destinationFolder s = []"
  shows "convertCalls (updateProgressVideo s) = convertCalls s"
  using assms by (auto simp: updateProgressVideo_def startConversion_def)

text \<open>
  A call of \<open>updateProgressVideo\<close> starts a job (changes the state at all) only if
  \<open>progressVideo\<close> is \<^verbatim>\<open>null\<close> and the pending list is not empty; while
  \<open>progressVideo\<close> is set the call changes nothing. From an idle state with a pending
  job the first call pops the head of the list and marks it running, and a second call
  right after it is a no-op.
\<close>

lemma updateProgressVideo_guard:
  "(updateProgressVideo s \<noteq> s \<longrightarrow> progressVideo s = None \<and> selectedVideos s \<noteq> [])
   \<and> (progressVideo s \<noteq> None \<longrightarrow> updateProgressVideo s = s)
   \<and> (progressVideo s = None \<and> selectedVideos s \<noteq> [] \<longrightarrow>
        updateProgressVideo s \<noteq> s
        \<and> progressVideo (updateProgressVideo s) = Some (hd (selectedVideos s))
        \<and> selectedVideos (updateProgressVideo s) = tl (selectedVideos s))
   \<and> updateProgressVideo (updateProgressVideo s) = updateProgressVideo s
   \<and> length (convertCalls (updateProgressVideo (updateProgressVideo s)))
        \<le> Suc (length (convertCalls s))"
proof -
  have a: "updateProgressVideo s \<noteq> s \<longrightarrow> progressVideo s = None \<and> selectedVideos s \<noteq> []"
    by (auto simp: updateProgressVideo_def)
  have b: "progressVideo s \<noteq> None \<longrightarrow> updateProgressVideo s = s"
    by (simp add: updateProgressVideo_running)
  have c: "progressVideo s = None \<and> selectedVideos s \<noteq> [] \<longrightarrow>
        updateProgressVideo s \<noteq> s
        \<and> progressVideo (updateProgressVideo s) = Some (hd (selectedVideos s))
        \<and> selectedVideos (updateProgressVideo s) = tl (selectedVideos s)"
  proof
    assume h: "progressVideo s = None \<and> selectedVideos s \<noteq> []"
    then have p: "progressVideo (updateProgressVideo s) = Some (hd (selectedVideos s))"
      and q: "selectedVideos (updateProgressVideo s) = tl (selectedVideos s)"
      by (simp_all add: updateProgressVideo_idle)
    from p h have "updateProgressVideo s \<noteq> s"
      by (metis option.distinct(1))
    with p q show "updateProgressVideo s \<noteq> s
        \<and> progressVideo (updateProgressVideo s) = Some (hd (selectedVideos s))
        \<and> selectedVideos (updateProgressVideo s) = tl (selectedVideos s)"
      by simp
  qed
  have d: "updateProgressVideo (updateProgressVideo s) = updateProgressVideo s"
    by (rule updateProgressVideo_twice)
  have e: "length (convertCalls (updateProgressVideo (updateProgressVideo s)))
        \<le> Suc (length (convertCalls s))"
    by (simp add: updateProgressVideo_twice updateProgressVideo_calls_le)
  from a b c d e show ?thesis
    by blast
qed

lemma updateProgressVideo_guard_example:
  "progressVideo idle_AB = None \<and> selectedVideos idle_AB \<noteq> []
   \<and> updateProgressVideo idle_AB \<noteq> idle_AB
   \<and> progressVideo (updateProgressVideo idle_AB) = Some videoA
   \<and> selectedVideos (updateProgressVideo idle_AB) = [videoB]
   \<and> progressVideo (updateProgressVideo idle_AB) \<noteq> None
   \<and> updateProgressVideo (updateProgressVideo idle_AB) = updateProgressVideo idle_AB
   \<and> convertCalls (updateProgressVideo (updateProgressVideo idle_AB))
       = [(''/in/A.mov'', ''/out'', 100)]"
proof -
  have i: "progressVideo idle_AB = None \<and> selectedVideos idle_AB \<noteq> []"
    by (simp add: idle_AB_def)
  have h: "hd (selectedVideos idle_AB) = videoA" "tl (selectedVideos idle_AB) = [videoB]"
    by (simp_all add: idle_AB_def)
  have c: "convertCalls (updateProgressVideo idle_AB) = [(''/in/A.mov'', ''/out'', 100)]"
    by (simp add: updateProgressVideo_def startConversion_def idle_AB_def videoA_def)
  from updateProgressVideo_guard [of idle_AB] i h c show ?thesis
    by simp
qed

section \<open>The output file name and path\<close>

subsection \<open>Decoding and re-encoding runes\<close>

lemma invalid_byte_ascii: "invalid_byte c \<Longrightarrow> byte c < 0x80"
  by (auto simp: invalid_byte_def invalid_rune_def byte_def)

lemma rune_size_le: "rune_size b \<le> 4"
  by (simp add: rune_size_def)

lemma Decode_width: "1 \<le> snd (DecodeRuneInString (c # cs)) \<and> snd (DecodeRuneInString (c # cs)) \<le> length (c # cs)"
  by (auto simp: Let_def)

lemma Decode_cases:
  "DecodeRuneInString (c # cs) = (RuneError, 1)
   \<or> (DecodeRuneInString (c # cs) = ([c], 1) \<and> byte c < 0x80)
   \<or> (\<exists>w. DecodeRuneInString (c # cs) = (take w (c # cs), w) \<and> 2 \<le> w \<and> w \<le> length (c # cs) \<and> w \<le> 4
        \<and> (\<forall>b\<in>set (take w (c # cs)). 0x80 \<le> byte b))"
proof -
  consider "cs = []" | b1 where "cs = [b1]" | b1 b2 where "cs = [b1, b2]"
    | b1 b2 b3 rest where "cs = b1 # b2 # b3 # rest"
    by (metis list.exhaust)
  then show ?thesis
  proof cases
    case 1
    then show ?thesis
      by (auto simp: Let_def rune_size_def)
  next
    case 2
    then show ?thesis
      apply (simp add: Let_def)
      apply (auto simp: rune_size_def accept_lo_def accept_hi_def continuation_def split: if_splits)
      done
  next
    case 3
    then show ?thesis
      apply (simp add: Let_def)
      apply (auto simp: rune_size_def accept_lo_def accept_hi_def continuation_def split: if_splits)
      done
  next
    case 4
    then show ?thesis
      apply (simp add: Let_def)
      apply (auto simp: rune_size_def accept_lo_def accept_hi_def continuation_def split: if_splits)
      done
  qed
qed

lemma encoded_RuneError: "encoded_rune RuneError"
  by (simp add: encoded_rune_def RuneError_def Let_def rune_size_def byte_def accept_lo_def
      accept_hi_def continuation_def)

lemma encoded_ascii: "byte c < 0x80 \<Longrightarrow> encoded_rune [c]"
  by (simp add: encoded_rune_def Let_def rune_size_def)

lemma Decode_encoded: "encoded_rune (fst (DecodeRuneInString (c # cs)))"
proof -
  consider "cs = []" | b1 where "cs = [b1]" | b1 b2 where "cs = [b1, b2]"
    | b1 b2 b3 rest where "cs = b1 # b2 # b3 # rest"
    by (metis list.exhaust)
  then show ?thesis
  proof cases
    case 1
    then show ?thesis
      using encoded_RuneError encoded_ascii [of c]
      by (auto simp: Let_def rune_size_def split: if_splits)
  next
    case 2
    then show ?thesis
      using encoded_RuneError encoded_ascii [of c]
      apply (simp add: Let_def)
      apply (auto simp: encoded_rune_def Let_def rune_size_def split: if_splits)
      done
  next
    case 3
    then show ?thesis
      using encoded_RuneError encoded_ascii [of c]
      apply (simp add: Let_def)
      apply (auto simp: encoded_rune_def Let_def rune_size_def split: if_splits)
      done
  next
    case 4
    then show ?thesis
      using encoded_RuneError encoded_ascii [of c]
      apply (simp add: Let_def)
      apply (auto simp: encoded_rune_def Let_def rune_size_def split: if_splits)
      done
  qed
qed

lemma shape_RuneError: "rune_shape RuneError"
  by (simp add: rune_shape_def RuneError_def byte_def)

lemma Decode_shape: "rune_shape (fst (DecodeRuneInString (c # cs)))"
  using Decode_cases [of c cs] shape_RuneError
  by (auto simp: rune_shape_def simp del: DecodeRuneInString.simps)

lemma runes_encoded: "r \<in> set (runes s) \<Longrightarrow> encoded_rune r"
  by (induction s arbitrary: r rule: runes.induct) (auto simp: Decode_encoded simp del: DecodeRuneInString.simps)

lemma runes_shape: "r \<in> set (runes s) \<Longrightarrow> rune_shape r"
  by (induction s arbitrary: r rule: runes.induct) (auto simp: Decode_shape simp del: DecodeRuneInString.simps)

lemma runes_append: 
  assumes "encoded_rune r" shows "runes (r @ t) = r # runes t"
proof -
  from assms obtain c cs where r: "r = c # cs"
    by (cases r) (auto simp: encoded_rune_def)
  from assms have d: "DecodeRuneInString (c # cs @ t) = (r, length r)"
    unfolding encoded_rune_def r by (metis append_Cons)
  show ?thesis
    unfolding r using d by (simp del: DecodeRuneInString.simps add: r)
qed

lemma Valid_append:
  assumes "encoded_rune r" shows "ValidString (r @ t) = ValidString t"
proof -
  from assms obtain c cs where r: "r = c # cs"
    by (cases r) (auto simp: encoded_rune_def)
  from assms have d: "DecodeRuneInString (c # cs @ t) = (r, length r)"
    unfolding encoded_rune_def r by (metis append_Cons)
  have "r \<noteq> RuneError \<or> length r \<noteq> 1"
    by (auto simp: RuneError_def)
  then show ?thesis
    unfolding r using d by (auto simp del: DecodeRuneInString.simps simp add: r)
qed

lemma runes_concat: "(\<forall>r\<in>set rs. encoded_rune r) \<Longrightarrow> runes (concat rs) = rs"
  by (induction rs) (simp_all add: runes_append)

lemma Valid_concat: "(\<forall>r\<in>set rs. encoded_rune r) \<Longrightarrow> ValidString (concat rs)"
  by (induction rs) (simp_all add: Valid_append)

lemma sanitize_rune_encoded: "encoded_rune r \<Longrightarrow> encoded_rune (sanitize_rune r)"
  using encoded_ascii [of "CHR ''_''"] by (simp add: sanitize_rune_def byte_def)

lemma sanitize_rune_idem: "sanitize_rune (sanitize_rune r) = sanitize_rune r"
  by (simp add: sanitize_rune_def invalid_rune_def)

lemma runes_Map: "runes (strings_Map sanitize_rune s) = map sanitize_rune (runes s)"
  unfolding strings_Map_def
  by (rule runes_concat) (auto simp: runes_encoded sanitize_rune_encoded)

lemma Valid_Map: "ValidString (strings_Map sanitize_rune s)"
  unfolding strings_Map_def
  by (rule Valid_concat) (auto simp: runes_encoded sanitize_rune_encoded)

lemma Map_idem: "strings_Map sanitize_rune (strings_Map sanitize_rune s) = strings_Map sanitize_rune s"
proof -
  have "map sanitize_rune (map sanitize_rune (runes s)) = map sanitize_rune (runes s)"
    by (simp add: sanitize_rune_idem)
  then show ?thesis
    by (simp only: strings_Map_def [of _ "strings_Map sanitize_rune s"] runes_Map)
       (simp add: strings_Map_def)
qed

lemma sanitize_rune_bytes:
  assumes "rune_shape r" and "b \<in> set (sanitize_rune r)" shows "\<not> invalid_byte b"
proof (cases "invalid_rune r")
  case True
  with assms(2) show ?thesis
    by (simp add: sanitize_rune_def invalid_byte_def invalid_rune_def)
next
  case False
  with assms show ?thesis
    using invalid_byte_ascii [of b]
    by (auto simp: sanitize_rune_def rune_shape_def invalid_byte_def)
qed

lemma Map_bytes: "b \<in> set (strings_Map sanitize_rune s) \<Longrightarrow> \<not> invalid_byte b"
  using runes_shape sanitize_rune_bytes by (fastforce simp: strings_Map_def)

lemma sanitizeFileName_take: "sanitizeFileName s = take 200 (strings_Map sanitize_rune s)"
  by (simp add: sanitizeFileName_def Let_def)

lemma sanitizeFileName_length: "length (sanitizeFileName s) \<le> 200"
  by (simp add: sanitizeFileName_take)

lemma sanitizeFileName_bytes: "b \<in> set (sanitizeFileName s) \<Longrightarrow> \<not> invalid_byte b"
  by (auto simp: sanitizeFileName_take dest: in_set_takeD Map_bytes)

declare DecodeRuneInString.simps [simp del]

lemma Valid_decode:
  assumes "ValidString (c # cs)"
  shows "\<exists>w. DecodeRuneInString (c # cs) = (take w (c # cs), w) \<and> 1 \<le> w
           \<and> w \<le> length (c # cs)"
proof -
  from assms have "DecodeRuneInString (c # cs) \<noteq> (RuneError, 1)"
    by (auto split: if_splits)
  with Decode_cases [of c cs] show ?thesis
    by (metis One_nat_def Suc_1 Suc_leD take0 take_Suc_Cons order_refl le_add1 length_Cons
        plus_1_eq_Suc)
qed

lemma concat_runes: "ValidString s \<Longrightarrow> concat (runes s) = s"
proof (induction s rule: ValidString.induct)
  case 1
  then show ?case by simp
next
  case (2 c cs)
  from Valid_decode [OF "2.prems"] obtain w where
    w: "DecodeRuneInString (c # cs) = (take w (c # cs), w)" "1 \<le> w"
    by blast
  from "2.prems" w have v: "ValidString (drop (w - 1) cs)"
    by (auto split: if_splits)
  from w "2.prems" have ne: "DecodeRuneInString (c # cs) \<noteq> (RuneError, 1)"
    by (auto split: if_splits)
  have d: "drop (w - 1) cs = drop w (c # cs)"
    using w(2) by (cases w) simp_all
  from "2.IH" [OF ne] v w have "concat (runes (drop (w - 1) cs)) = drop (w - 1) cs"
    by simp
  then show ?case
    using w d by simp
qed

lemma sanitize_rune_bytewise: "rune_shape r \<Longrightarrow> sanitize_rune r = map sanitize_byte r"
proof -
  assume "rune_shape r"
  then consider c where "r = [c]" | "\<forall>b\<in>set r. 0x80 \<le> byte b" "\<forall>c. r \<noteq> [c]"
    unfolding rune_shape_def by blast
  then show ?thesis
  proof cases
    case 1
    then show ?thesis
      by (simp add: sanitize_rune_def sanitize_byte_def invalid_byte_def)
  next
    case 2
    from 2(2) have "\<not> invalid_rune r"
      by (auto simp: invalid_rune_def)
    moreover have "map sanitize_byte r = r"
    proof (rule map_idI)
      fix b assume "b \<in> set r"
      with 2(1) have "\<not> byte b < 0x80" by fastforce
      then show "sanitize_byte b = b"
        using invalid_byte_ascii [of b] by (auto simp: sanitize_byte_def)
    qed
    ultimately show ?thesis
      by (simp add: sanitize_rune_def)
  qed
qed

lemma Map_bytewise_runes: "strings_Map sanitize_rune s = map sanitize_byte (concat (runes s))"
proof -
  have "map sanitize_rune (runes s) = map (map sanitize_byte) (runes s)"
    by (rule map_cong) (simp_all add: sanitize_rune_bytewise runes_shape)
  then have "concat (map sanitize_rune (runes s)) = concat (map (map sanitize_byte) (runes s))"
    by (rule arg_cong)
  then show ?thesis
    by (simp only: strings_Map_def map_concat)
qed

lemma Map_bytewise: "ValidString s \<Longrightarrow> strings_Map sanitize_rune s = map sanitize_byte s"
  by (simp add: Map_bytewise_runes concat_runes)

lemma Map_fixed:
  assumes "ValidString t" and "\<forall>b\<in>set t. \<not> invalid_byte b"
  shows "strings_Map sanitize_rune t = t"
proof -
  have "map sanitize_byte t = t"
    by (rule map_idI) (use assms(2) in \<open>simp add: sanitize_byte_def\<close>)
  with assms(1) show ?thesis
    by (simp add: Map_bytewise)
qed

lemma ascii_Valid: "ascii s \<Longrightarrow> ValidString s"
  by (induction s) (simp_all add: ascii_def DecodeRuneInString.simps rune_size_def Let_def RuneError_def)

lemma ascii_sanitize_byte: "ascii s \<Longrightarrow> ascii (map sanitize_byte s)"
  by (auto simp: ascii_def sanitize_byte_def byte_def)

lemma ascii_take: "ascii s \<Longrightarrow> ascii (take n s)"
  by (auto simp: ascii_def dest: in_set_takeD)

lemma sanitizeFileName_fixed:
  assumes "ValidString (sanitizeFileName s)"
  shows "sanitizeFileName (sanitizeFileName s) = sanitizeFileName s"
proof -
  have "strings_Map sanitize_rune (sanitizeFileName s) = sanitizeFileName s"
    using assms sanitizeFileName_bytes by (intro Map_fixed) auto
  then show ?thesis
    using sanitizeFileName_length [of s]
    by (simp add: sanitizeFileName_take [of "sanitizeFileName s"])
qed

lemma sanitizeFileName_short_Valid:
  "length (strings_Map sanitize_rune s) \<le> 200 \<Longrightarrow> ValidString (sanitizeFileName s)"
  by (simp add: sanitizeFileName_take Valid_Map)

lemma sanitizeFileName_ascii: "ascii s \<Longrightarrow> sanitizeFileName s = take 200 (map sanitize_byte s)"
  by (simp add: sanitizeFileName_take Map_bytewise ascii_Valid)

lemma sanitizeFileName_ascii_Valid: "ascii s \<Longrightarrow> ValidString (sanitizeFileName s)"
  by (simp add: sanitizeFileName_ascii ascii_Valid ascii_take ascii_sanitize_byte)

lemma runes_ascii: "ascii s \<Longrightarrow> runes s = map (\<lambda>c. [c]) s"
  by (induction s) (simp_all add: ascii_def DecodeRuneInString.simps rune_size_def Let_def)

lemma Map_ascii_append:
  "ascii xs \<Longrightarrow> strings_Map sanitize_rune (xs @ t) = map sanitize_byte xs @ strings_Map sanitize_rune t"
proof (induction xs)
  case Nil
  then show ?case by simp
next
  case (Cons c xs)
  then have c: "byte c < 0x80" and xs: "ascii xs"
    by (simp_all add: ascii_def)
  have "runes ([c] @ (xs @ t)) = [c] # runes (xs @ t)"
    by (rule runes_append) (simp add: encoded_ascii c)
  then have "strings_Map sanitize_rune (c # xs @ t) = sanitize_rune [c] @ strings_Map sanitize_rune (xs @ t)"
    by (simp add: strings_Map_def)
  moreover have "sanitize_rune [c] = [sanitize_byte c]"
    by (simp add: sanitize_rune_def sanitize_byte_def invalid_byte_def)
  ultimately show ?case
    using Cons.IH [OF xs] by simp
qed

lemma Base_no_separator:
  assumes "p \<noteq> []" and "CHR ''/'' \<notin> set p"
  shows "filepath_Base p = p"
proof -
  from assms have "\<not> IsPathSeparator (hd (rev p))"
    by (metis IsPathSeparator_def hd_rev last_in_set)
  then have d: "dropWhile IsPathSeparator (rev p) = rev p"
    using assms(1) by (cases "rev p") simp_all
  have t: "takeWhile (\<lambda>c. \<not> IsPathSeparator c) (rev p) = rev p"
    using assms(2) by (auto simp: takeWhile_eq_all_conv IsPathSeparator_def)
  show ?thesis
    using assms(1) by (simp add: filepath_Base_def d t)
qed

lemma take_concat_replicate2:
  "k \<le> n \<Longrightarrow> take (2 * k) (concat (replicate n [x, y])) = concat (replicate k [x, y])"
proof (induction n arbitrary: k)
  case 0
  then show ?case by simp
next
  case (Suc n)
  then show ?case
    by (cases k) simp_all
qed

lemma encoded_e_acute: "encoded_rune e_acute"
  by (simp add: encoded_rune_def e_acute_def DecodeRuneInString.simps Let_def rune_size_def
      byte_def accept_lo_def accept_hi_def)

lemma sanitize_e_acute: "sanitize_rune e_acute = e_acute"
  by (simp add: sanitize_rune_def invalid_rune_def e_acute_def)

lemma runes_replicate_e_acute: "runes (concat (replicate n e_acute)) = replicate n e_acute"
  by (rule runes_concat) (simp add: encoded_e_acute)

lemma stem_accented: "source_stem (accented_name @ ''.mp4'') = accented_name"
proof -
  have s: "CHR ''/'' \<notin> set (accented_name @ ''.mp4'')"
    by (auto simp: accented_name_def e_acute_def)
  have "filepath_Base (accented_name @ ''.mp4'') = accented_name @ ''.mp4''"
    by (rule Base_no_separator) (use s in simp_all)
  moreover have "filepath_Ext (accented_name @ ''.mp4'') = ''.mp4''"
    by (simp add: filepath_Ext_def IsPathSeparator_def)
  ultimately show ?thesis
    by (simp add: source_stem_def TrimSuffix_def HasSuffix_def)
qed

lemma outputFileName_stem: "outputFileName p = sanitizeFileName (source_stem p)"
  by (simp add: outputFileName_def source_stem_def Let_def)

lemma sanitize_accented: "sanitizeFileName accented_name = concat (replicate 100 e_acute)"
proof -
  have "strings_Map sanitize_rune accented_name = accented_name"
    by (simp add: strings_Map_def accented_name_def runes_replicate_e_acute sanitize_e_acute)
  moreover have "take (2 * 100) (concat (replicate 250 e_acute)) = concat (replicate 100 e_acute)"
    unfolding e_acute_def by (rule take_concat_replicate2) simp
  ultimately show ?thesis
    by (simp add: sanitizeFileName_take accented_name_def)
qed

lemma characters_accented: "sanitize_characters accented_name = concat (replicate 200 e_acute)"
  by (simp add: sanitize_characters_def accented_name_def runes_replicate_e_acute sanitize_e_acute)

text \<open>
  Claim C9 as stated fails on a name that is not ASCII: the name of 250 letters
  \<open>e_acute\<close> (500 bytes) is cut to 200 bytes, which are 100 characters, not to 200
  characters.
\<close>

theorem outputPath_characters_counterexample:
  "RuneCountInString (source_stem (accented_name @ ''.mp4'')) = 250
   \<and> RuneCountInString (outputFileName (accented_name @ ''.mp4'')) = 100
   \<and> outputFileName (accented_name @ ''.mp4'')
        \<noteq> sanitize_characters (source_stem (accented_name @ ''.mp4''))"
proof -
  have "length (concat (replicate 100 e_acute)) \<noteq> length (concat (replicate 200 e_acute))"
    by (simp add: e_acute_def length_concat sum_list_replicate)
  then have "concat (replicate 100 e_acute) \<noteq> concat (replicate 200 e_acute)"
    by metis
  then show ?thesis
    by (simp add: outputFileName_stem stem_accented sanitize_accented characters_accented
        RuneCountInString_def runes_replicate_e_acute)
       (simp add: accented_name_def runes_replicate_e_acute)
qed

lemma sanitize_long_name: "sanitizeFileName long_name = replicate 199 (CHR ''a'') @ [CHR 0xC3]"
proof -
  have a: "ascii (replicate 199 (CHR ''a''))"
    by (simp add: ascii_def byte_def)
  have "strings_Map sanitize_rune e_acute = e_acute"
    using runes_concat [of "[e_acute]"] by (simp add: strings_Map_def encoded_e_acute sanitize_e_acute)
  with Map_ascii_append [OF a, of e_acute]
  have "strings_Map sanitize_rune long_name = replicate 199 (CHR ''a'') @ e_acute"
    by (simp add: long_name_def sanitize_byte_def invalid_byte_def invalid_rune_def)
  then show ?thesis
    by (simp add: sanitizeFileName_take e_acute_def)
qed

lemma sanitize_long_name_twice:
  "sanitizeFileName (replicate 199 (CHR ''a'') @ [CHR 0xC3]) = replicate 199 (CHR ''a'') @ [CHR 0xEF]"
proof -
  have a: "ascii (replicate 199 (CHR ''a''))"
    by (simp add: ascii_def byte_def)
  have "strings_Map sanitize_rune [CHR 0xC3] = RuneError"
    by (simp add: strings_Map_def DecodeRuneInString.simps Let_def rune_size_def byte_def
        sanitize_rune_def invalid_rune_def RuneError_def)
  with Map_ascii_append [OF a, of "[CHR 0xC3]"]
  have "strings_Map sanitize_rune (replicate 199 (CHR ''a'') @ [CHR 0xC3])
          = replicate 199 (CHR ''a'') @ RuneError"
    by (simp add: sanitize_byte_def invalid_byte_def invalid_rune_def)
  then show ?thesis
    by (simp add: sanitizeFileName_take RuneError_def)
qed

text \<open>
  Claim C10 as stated fails: cutting \<open>long_name\<close> at byte 200 splits the two bytes
  of its last letter. The first pass returns 199 letters and the byte C3; the second
  pass reads that byte as an invalid encoding, writes U+FFFD for it and cuts again,
  and returns 199 letters and the byte EF.
\<close>

theorem sanitizeFileName_idempotent_counterexample:
  "sanitizeFileName (sanitizeFileName long_name) \<noteq> sanitizeFileName long_name"
  by (simp add: sanitize_long_name sanitize_long_name_twice)

lemma concat_take_singletons: "concat (take n (map (\<lambda>c. [f c]) s)) = take n (map f s)"
proof (induction s arbitrary: n)
  case Nil
  then show ?case by simp
next
  case (Cons c s)
  then show ?case by (cases n) simp_all
qed

lemma length_le_concat: "(\<forall>r\<in>set rs. r \<noteq> []) \<Longrightarrow> length rs \<le> length (concat rs)"
proof (induction rs)
  case Nil
  then show ?case by simp
next
  case (Cons r rs)
  then have "1 \<le> length r" and "length rs \<le> length (concat rs)"
    by (simp_all add: Suc_leI)
  then show ?case by simp
qed

lemma sanitize_characters_ascii:
  assumes "ascii s" shows "sanitize_characters s = sanitizeFileName s"
proof -
  have "map sanitize_rune (map (\<lambda>c. [c]) s) = map (\<lambda>c. [sanitize_byte c]) s"
    by (simp add: sanitize_rune_def sanitize_byte_def invalid_byte_def)
  then have "sanitize_characters s = concat (take 200 (map (\<lambda>c. [sanitize_byte c]) s))"
    using assms by (simp only: sanitize_characters_def runes_ascii)
  then show ?thesis
    using assms by (simp only: concat_take_singletons sanitizeFileName_ascii)
qed

lemma sanitize_characters_short:
  assumes "length (strings_Map sanitize_rune s) \<le> 200"
  shows "sanitize_characters s = sanitizeFileName s"
proof -
  have "\<forall>r\<in>set (map sanitize_rune (runes s)). r \<noteq> []"
    using runes_encoded sanitize_rune_encoded by (fastforce simp: encoded_rune_def)
  then have "length (map sanitize_rune (runes s)) \<le> length (strings_Map sanitize_rune s)"
    unfolding strings_Map_def by (rule length_le_concat)
  with assms have "take 200 (map sanitize_rune (runes s)) = map sanitize_rune (runes s)"
    by simp
  with assms show ?thesis
    by (simp add: sanitize_characters_def sanitizeFileName_take strings_Map_def)
qed

text \<open>
  Claim C9, amended. For every input path and destination folder the output path is the
  destination joined with the output file name and the suffix \<^verbatim>\<open>_av1.mp4\<close>. The
  output file name is the base name of the source without its extension, sanitised and
  cut to 200 \<^emph>\<open>bytes\<close>; it contains none of the nine characters; when the name is
  valid UTF-8 it is the name with every occurrence of the nine characters replaced by
  the underscore, byte by byte, and cut to 200 bytes. When the name is ASCII, or nothing
  is cut, the output path is the one the claim describes (200 characters).
\<close>

theorem outputPath_derivation:
  "outputPath inputPath outputFolder
     = filepath_Join [outputFolder, outputFileName inputPath @ ''_av1.mp4'']
   \<and> outputFileName inputPath
       = take 200 (strings_Map sanitize_rune (source_stem inputPath))
   \<and> length (outputFileName inputPath) \<le> 200
   \<and> (\<forall>b\<in>set (outputFileName inputPath). \<not> invalid_byte b)
   \<and> (ValidString (source_stem inputPath) \<longrightarrow>
        outputFileName inputPath = take 200 (map sanitize_byte (source_stem inputPath)))
   \<and> (ascii (source_stem inputPath)
        \<or> length (strings_Map sanitize_rune (source_stem inputPath)) \<le> 200 \<longrightarrow>
        outputPath inputPath outputFolder = claimed_outputPath inputPath outputFolder)"
proof -
  have a: "outputPath inputPath outputFolder
     = filepath_Join [outputFolder, outputFileName inputPath @ ''_av1.mp4'']"
    by (simp add: outputPath_def)
  have b: "outputFileName inputPath
       = take 200 (strings_Map sanitize_rune (source_stem inputPath))"
    by (simp add: outputFileName_stem sanitizeFileName_take)
  have c: "length (outputFileName inputPath) \<le> 200"
    by (simp add: outputFileName_stem sanitizeFileName_length)
  have d: "\<forall>b\<in>set (outputFileName inputPath). \<not> invalid_byte b"
    by (simp add: outputFileName_stem sanitizeFileName_bytes)
  have e: "ValidString (source_stem inputPath) \<longrightarrow>
        outputFileName inputPath = take 200 (map sanitize_byte (source_stem inputPath))"
    by (simp add: b Map_bytewise)
  have f: "ascii (source_stem inputPath)
        \<or> length (strings_Map sanitize_rune (source_stem inputPath)) \<le> 200 \<longrightarrow>
        outputPath inputPath outputFolder = claimed_outputPath inputPath outputFolder"
    using sanitize_characters_ascii sanitize_characters_short
    by (auto simp: outputPath_def claimed_outputPath_def outputFileName_stem)
  from a b c d e f show ?thesis
    by blast
qed

text \<open>
  The scenario of the specification: source \<^verbatim>\<open>A\<close>, destination \<^verbatim>\<open>/out\<close>.
\<close>

theorem outputPath_derivation_witness:
  "ascii (source_stem ''/in/A.mov'')
   \<and> ValidString (source_stem ''/in/A.mov'')
   \<and> outputFileName ''/in/A.mov'' = ''A''
   \<and> \<not> invalid_byte (CHR ''A'')
   \<and> claimed_outputPath ''/in/A.mov'' ''/out'' = ''/out/A_av1.mp4''
   \<and> outputPath ''/in/A.mov'' ''/out'' = ''/out/A_av1.mp4''"
proof -
  have s: "source_stem ''/in/A.mov'' = ''A''"
    by code_simp
  have a: "ascii ''A''" and v: "ValidString ''A''"
    by code_simp+
  have n: "outputFileName ''/in/A.mov'' = ''A''"
    by code_simp
  have p: "outputPath ''/in/A.mov'' ''/out'' = ''/out/A_av1.mp4''"
    by code_simp
  from outputPath_derivation [of "''/in/A.mov''" "''/out''"] s a v n p show ?thesis
    by simp
qed

text \<open>An ASCII name of 250 characters is cut to 200 characters.\<close>

lemma outputFileName_long_ascii:
  "RuneCountInString (source_stem (replicate 250 (CHR ''a'') @ ''.mov'')) = 250
   \<and> RuneCountInString (outputFileName (replicate 250 (CHR ''a'') @ ''.mov'')) = 200"
proof -
  have s: "CHR ''/'' \<notin> set (replicate 250 (CHR ''a'') @ ''.mov'')"
    by auto
  have "filepath_Base (replicate 250 (CHR ''a'') @ ''.mov'') = replicate 250 (CHR ''a'') @ ''.mov''"
    by (rule Base_no_separator) (use s in simp_all)
  moreover have "filepath_Ext (replicate 250 (CHR ''a'') @ ''.mov'') = ''.mov''"
    by (simp add: filepath_Ext_def IsPathSeparator_def)
  ultimately have st: "source_stem (replicate 250 (CHR ''a'') @ ''.mov'') = replicate 250 (CHR ''a'')"
    by (simp add: source_stem_def TrimSuffix_def HasSuffix_def)
  have a: "ascii (replicate n (CHR ''a''))" for n
    by (simp add: ascii_def byte_def)
  have "sanitizeFileName (replicate 250 (CHR ''a'')) = replicate 200 (CHR ''a'')"
    by (simp add: sanitizeFileName_ascii a sanitize_byte_def invalid_byte_def invalid_rune_def)
  then show ?thesis
    by (simp add: outputFileName_stem st RuneCountInString_def runes_ascii a)
qed

text \<open>
  Claim C10, amended. Sanitising a sanitised name changes nothing whenever the sanitised
  name is valid UTF-8; it is whenever the name is ASCII and whenever the replacement
  leaves at most 200 bytes, so that nothing is cut.
\<close>

theorem sanitizeFileName_idempotent_valid:
  "ValidString (sanitizeFileName s) \<or> ascii s
     \<or> length (strings_Map sanitize_rune s) \<le> 200 \<longrightarrow>
   sanitizeFileName (sanitizeFileName s) = sanitizeFileName s"
  using sanitizeFileName_fixed sanitizeFileName_ascii_Valid sanitizeFileName_short_Valid
  by blast

text \<open>A name that is not ASCII and is sanitised to valid UTF-8.\<close>

theorem sanitizeFileName_idempotent_valid_witness:
  "ValidString (sanitizeFileName (e_acute @ ''/x:y''))
   \<and> sanitizeFileName (e_acute @ ''/x:y'') = e_acute @ ''_x_y''
   \<and> sanitizeFileName (sanitizeFileName (e_acute @ ''/x:y'')) = e_acute @ ''_x_y''"
proof -
  have s: "sanitizeFileName (e_acute @ ''/x:y'') = e_acute @ ''_x_y''"
    by code_simp
  have v: "ValidString (e_acute @ ''_x_y'')"
    by code_simp
  from sanitizeFileName_idempotent_valid [of "e_acute @ ''/x:y''"] s v show ?thesis
    by simp
qed

section \<open>The progress monitor\<close>

subsection \<open>Rounding to binary64\<close>

lemma flog2_le: "0 < n \<Longrightarrow> 2 ^ flog2 n \<le> n"
proof (induction n rule: flog2.induct)
  case (1 n)
  show ?case
  proof (cases "n < 2")
    case True
    with "1.prems" show ?thesis
      by (simp add: flog2.simps [of n])
  next
    case False
    then have "0 < n div 2" by simp
    with "1.IH" False have "2 ^ flog2 (n div 2) \<le> n div 2" by simp
    then have "2 * 2 ^ flog2 (n div 2) \<le> 2 * (n div 2)" by simp
    also have "\<dots> \<le> n" by simp
    finally show ?thesis
      using False by (simp add: flog2.simps [of n])
  qed
qed

lemma flog2_gt: "n < 2 ^ Suc (flog2 n)"
proof (induction n rule: flog2.induct)
  case (1 n)
  show ?case
  proof (cases "n < 2")
    case True
    then show ?thesis
      by (simp add: flog2.simps [of n])
  next
    case False
    with "1.IH" have "n div 2 < 2 ^ Suc (flog2 (n div 2))" by simp
    then have "n < 2 * 2 ^ Suc (flog2 (n div 2))" by linarith
    then show ?thesis
      using False by (simp add: flog2.simps [of n])
  qed
qed

lemma ilog2_le:
  assumes "0 < x" shows "2 powi ilog2 x \<le> x"
proof (cases "1 \<le> x")
  case True
  then have n: "0 < nat \<lfloor>x\<rfloor>" by simp
  have "(2::real) ^ flog2 (nat \<lfloor>x\<rfloor>) = real (2 ^ flog2 (nat \<lfloor>x\<rfloor>))" by simp
  also have "\<dots> \<le> real (nat \<lfloor>x\<rfloor>)"
    using flog2_le [OF n] by (simp only: of_nat_le_iff)
  also have "\<dots> \<le> x"
    using True by simp
  finally show ?thesis
    using True by (simp add: ilog2_def)
next
  case False
  define n where "n = nat \<lceil>1 / x\<rceil>"
  define k where "k = Suc (flog2 (n - 1))"
  from False assms have "1 < 1 / x" by simp
  have "1 / x \<le> real_of_int \<lceil>1 / x\<rceil>" by simp
  also have "\<dots> = real n"
    using \<open>1 < 1 / x\<close> by (simp add: n_def)
  finally have a: "1 / x \<le> real n" .
  have "n - 1 < 2 ^ k"
    unfolding k_def by (rule flog2_gt)
  then have "n \<le> 2 ^ k" by simp
  then have "real n \<le> real (2 ^ k)"
    by (rule of_nat_mono)
  with a have "1 / x \<le> real (2 ^ k)"
    by (rule order_trans)
  then have "1 / x \<le> 2 ^ k" by simp
  with assms have "1 / 2 ^ k \<le> x"
    by (simp add: field_simps)
  moreover have "ilog2 x = - int k"
    using False by (simp add: ilog2_def k_def n_def)
  ultimately show ?thesis
    by (simp add: power_int_minus_divide)
qed

lemma ilog2_gt:
  assumes "0 < x" shows "x < 2 powi (ilog2 x + 1)"
proof (cases "1 \<le> x")
  case True
  define n where "n = nat \<lfloor>x\<rfloor>"
  have "x < real_of_int \<lfloor>x\<rfloor> + 1" by simp
  also have "\<dots> = real (n + 1)"
    using True by (simp add: n_def)
  also have "\<dots> \<le> real (2 ^ Suc (flog2 n))"
  proof (rule of_nat_mono)
    show "n + 1 \<le> 2 ^ Suc (flog2 n)"
      using flog2_gt [of n] by simp
  qed
  finally have "x < 2 ^ Suc (flog2 n)" by simp
  moreover have "ilog2 x + 1 = int (Suc (flog2 n))"
    using True by (simp add: ilog2_def n_def)
  ultimately show ?thesis
    by (simp only: power_int_of_nat)
next
  case False
  define n where "n = nat \<lceil>1 / x\<rceil>"
  from False assms have "1 < 1 / x" by simp
  then have "2 \<le> \<lceil>1 / x\<rceil>" by linarith
  then have n2: "2 \<le> n" unfolding n_def by linarith
  have "real (2 ^ flog2 (n - 1)) \<le> real (n - 1)"
  proof (rule of_nat_mono)
    show "2 ^ flog2 (n - 1) \<le> n - 1"
      using n2 by (intro flog2_le) simp
  qed
  also have "\<dots> = real_of_int \<lceil>1 / x\<rceil> - 1"
    using n2 \<open>2 \<le> \<lceil>1 / x\<rceil>\<close> by (simp add: n_def of_nat_diff)
  also have "\<dots> < 1 / x" by linarith
  finally have "2 ^ flog2 (n - 1) < 1 / x" by simp
  with assms have "x < 1 / 2 ^ flog2 (n - 1)"
    by (simp add: field_simps)
  moreover have "ilog2 x + 1 = - int (flog2 (n - 1))"
    using False by (simp add: ilog2_def n_def)
  ultimately show ?thesis
    by (simp add: power_int_minus_divide)
qed

lemma powi2_less_D:
  assumes "(2::real) powi i < 2 powi j" shows "i < j"
proof (rule ccontr)
  assume "\<not> i < j"
  then have "(2::real) powi j \<le> 2 powi i"
    by (intro power_int_increasing) simp_all
  with assms show False by simp
qed

lemma round_half_even_of_int: "round_half_even (of_int k) = k"
  by (simp add: round_half_even_def)

lemma round_half_even_ge: "\<lfloor>q\<rfloor> \<le> round_half_even q"
  by (simp add: round_half_even_def Let_def)

lemma round64_exact:
  assumes x: "x = of_int m * 2 powi e" and m: "\<bar>m\<bar> < 2 ^ 53" and e: "- 1074 \<le> e"
    and b: "\<bar>x\<bar> < 2 ^ 1024"
  shows "round64 x = Fin x"
proof (cases "x = 0")
  case True
  then show ?thesis by (simp add: round64_def)
next
  case False
  define a where "a = \<bar>x\<bar>"
  define E where "E = max (ilog2 a - 52) (- 1074)"
  from False have a0: "0 < a" by (simp add: a_def)
  have am: "a = of_int \<bar>m\<bar> * 2 powi e"
    by (simp add: a_def x abs_mult power_int_abs)
  have "2 powi ilog2 a \<le> a" by (rule ilog2_le [OF a0])
  also have "a < 2 ^ 53 * 2 powi e"
  proof -
    have "real_of_int \<bar>m\<bar> < 2 ^ 53"
      using m by (metis of_int_less_iff of_int_numeral of_int_power)
    then show ?thesis
      unfolding am by (simp add: mult_strict_right_mono)
  qed
  also have "\<dots> = 2 powi (53 + e)"
    by (simp add: power_int_add)
  finally have "(2::real) powi ilog2 a < 2 powi (53 + e)" .
  then have "ilog2 a < 53 + e"
    by (rule powi2_less_D)
  with e have Ee: "E \<le> e" by (simp add: E_def)
  define K where "K = \<bar>m\<bar> * 2 ^ nat (e - E)"
  have "a / 2 powi E = of_int \<bar>m\<bar> * 2 powi (e - E)"
    by (simp add: am power_int_diff)
  also have "\<dots> = of_int K"
    using Ee by (simp add: K_def power_int_nonneg_exp)
  finally have q: "a / 2 powi E = of_int K" .
  then have y: "of_int (round_half_even (a / 2 powi E)) * 2 powi E = a"
    by (simp add: round_half_even_of_int) (metis nonzero_eq_divide_eq power_int_eq_0_iff q zero_neq_numeral)
  have "sgn x * a = x"
    by (simp add: a_def sgn_mult_abs)
  then show ?thesis
    using False b y unfolding round64_def Let_def a_def [symmetric] E_def [symmetric]
    by (simp add: a_def)
qed

lemma round64_int: "\<bar>n\<bar> < 2 ^ 53 \<Longrightarrow> round64 (of_int n) = Fin (of_int n)"
proof -
  assume n: "\<bar>n\<bar> < 2 ^ 53"
  then have "\<bar>real_of_int n\<bar> < 2 ^ 53"
    by (metis of_int_abs of_int_less_iff of_int_numeral of_int_power)
  also have "(2::real) ^ 53 < 2 ^ 1024" by simp
  finally have "\<bar>real_of_int n\<bar> < 2 ^ 1024" .
  with n show ?thesis
    by (intro round64_exact [where m = n and e = 0]) simp_all
qed

lemma round64_overflow:
  assumes "2 ^ 1024 \<le> x" shows "round64 x = PInf"
proof -
  have "(0::real) < 2 ^ 1024" by simp
  with assms have x0: "0 < x" by linarith
  define E where "E = ilog2 x - 52"
  have "ilog2 x \<ge> 1024"
  proof (rule ccontr)
    assume "\<not> 1024 \<le> ilog2 x"
    then have "ilog2 x + 1 \<le> 1024" by simp
    then have "(2::real) powi (ilog2 x + 1) \<le> 2 powi 1024"
      by (intro power_int_increasing) simp_all
    with ilog2_gt [OF x0] assms show False by simp
  qed
  then have m: "max (ilog2 x - 52) (- 1074) = E"
    by (simp add: E_def)
  have "(2::real) ^ 52 = 2 powi (ilog2 x) / 2 powi E"
    by (simp add: E_def power_int_diff [symmetric])
  also have "\<dots> \<le> x / 2 powi E"
    using ilog2_le [OF x0] by (simp add: divide_right_mono)
  finally have "(2::int) ^ 52 \<le> \<lfloor>x / 2 powi E\<rfloor>"
    by (simp add: le_floor_iff)
  with round_half_even_ge [of "x / 2 powi E"]
  have "(2::int) ^ 52 \<le> round_half_even (x / 2 powi E)" by linarith
  then have "(2::real) ^ 52 \<le> of_int (round_half_even (x / 2 powi E))"
    by (metis of_int_le_iff of_int_numeral of_int_power)
  then have "(2::real) ^ 52 * 2 powi E \<le> of_int (round_half_even (x / 2 powi E)) * 2 powi E"
    by (intro mult_right_mono) simp_all
  moreover have "(2::real) ^ 52 * 2 powi E = 2 powi ilog2 x"
    by (simp add: E_def power_int_diff)
  moreover have "(2::real) ^ 1024 \<le> 2 powi ilog2 x"
    using \<open>1024 \<le> ilog2 x\<close> power_int_increasing [of 1024 "ilog2 x" "2::real"] by simp
  ultimately have "(2::real) ^ 1024 \<le> of_int (round_half_even (x / 2 powi E)) * 2 powi E"
    by linarith
  then show ?thesis
    using x0 m by (simp add: round64_def Let_def)
qed

lemma round64_nonneg:
  assumes "0 \<le> x"
  shows "round64 x = PInf \<or> (\<exists>a. round64 x = Fin a \<and> 0 \<le> a)"
proof (cases "x = 0")
  case True
  then show ?thesis by (simp add: round64_def)
next
  case False
  with assms have x0: "0 < x" by simp
  define e where "e = max (ilog2 \<bar>x\<bar> - 52) (- 1074)"
  define y where "y = real_of_int (round_half_even (\<bar>x\<bar> / 2 powi e)) * 2 powi e"
  have "0 \<le> \<bar>x\<bar> / 2 powi e" by simp
  then have "0 \<le> \<lfloor>\<bar>x\<bar> / 2 powi e\<rfloor>" by simp
  with round_half_even_ge [of "\<bar>x\<bar> / 2 powi e"]
  have "0 \<le> round_half_even (\<bar>x\<bar> / 2 powi e)" by linarith
  then have "0 \<le> y" by (simp add: y_def)
  then show ?thesis
    using x0 unfolding round64_def Let_def e_def [symmetric] y_def [symmetric]
    by simp
qed

subsection \<open>The samples of a run increase\<close>

lemma flt_trans: "flt x y \<Longrightarrow> flt y z \<Longrightarrow> flt x z"
  by (cases x; cases y; cases z) auto

lemma flt_irrefl: "\<not> flt x x"
  by (cases x) auto

lemma flt_fle: "flt x y \<Longrightarrow> fle x y"
  by (simp add: fle_def)

lemma not_fgt_fle: "\<not> fgt x (Fin b) \<Longrightarrow> flt z x \<Longrightarrow> fle x (Fin b)"
  by (cases x; cases z) (auto simp: fgt_def fle_def)

lemma percentages_append: "percentages (es @ es') = percentages es @ percentages es'"
  by (induction es rule: percentages.induct) simp_all

lemma line_progress_ceiling:
  "line_progress totalFrames l = Some (p, s) \<Longrightarrow> \<not> fgt p (Fin 100)"
  by (auto simp: line_progress_def Let_def fgt_def split: if_splits option.splits sum.splits)

lemma tick_cases:
  assumes "tick totalFrames st ob = (st', es)"
  shows "(es = [] \<and> lastProgress st' = lastProgress st)
     \<or> (\<exists>speed. es = [Progress (lastProgress st') speed]
          \<and> fgt (lastProgress st') (lastProgress st)
          \<and> \<not> fgt (lastProgress st') (Fin 100))"
  using assms line_progress_ceiling
  by (fastforce simp: tick_def Let_def split: option.splits if_splits prod.splits)

lemma ticks_increasing:
  assumes "ticks totalFrames st obs = (st', es)"
  shows "sorted_wrt flt (percentages es)
     \<and> (\<forall>p\<in>set (percentages es). flt (lastProgress st) p \<and> \<not> fgt p (Fin 100)
           \<and> (p = lastProgress st' \<or> flt p (lastProgress st')))
     \<and> (lastProgress st' = lastProgress st \<or> flt (lastProgress st) (lastProgress st'))
     \<and> length (percentages es) = length es"
  using assms
proof (induction obs arbitrary: st st' es)
  case Nil
  then show ?case by simp
next
  case (Cons ob obs)
  obtain st1 es1 where t: "tick totalFrames st ob = (st1, es1)"
    by (cases "tick totalFrames st ob")
  obtain st2 es2 where r: "ticks totalFrames st1 obs = (st2, es2)"
    by (cases "ticks totalFrames st1 obs")
  from Cons.prems t r have e: "es = es1 @ es2" and s: "st' = st2"
    by simp_all
  note ih = Cons.IH [OF r]
  from tick_cases [OF t] show ?case
  proof
    assume "es1 = [] \<and> lastProgress st1 = lastProgress st"
    with ih show ?thesis
      by (simp add: e s)
  next
    assume "\<exists>speed. es1 = [Progress (lastProgress st1) speed]
          \<and> fgt (lastProgress st1) (lastProgress st)
          \<and> \<not> fgt (lastProgress st1) (Fin 100)"
    then obtain speed where es1: "es1 = [Progress (lastProgress st1) speed]"
      and up: "flt (lastProgress st) (lastProgress st1)"
      and top: "\<not> fgt (lastProgress st1) (Fin 100)"
      by (auto simp: fgt_def)
    from ih have a: "sorted_wrt flt (percentages es2)"
      and b: "\<forall>p\<in>set (percentages es2). flt (lastProgress st1) p \<and> \<not> fgt p (Fin 100)
           \<and> (p = lastProgress st2 \<or> flt p (lastProgress st2))"
      and c: "lastProgress st2 = lastProgress st1 \<or> flt (lastProgress st1) (lastProgress st2)"
      and d: "length (percentages es2) = length es2"
      by simp_all
    have p: "percentages es = lastProgress st1 # percentages es2"
      by (simp add: e es1)
    have "sorted_wrt flt (percentages es)"
      using a b by (simp add: p)
    moreover have "\<forall>p\<in>set (percentages es). flt (lastProgress st) p \<and> \<not> fgt p (Fin 100)
           \<and> (p = lastProgress st' \<or> flt p (lastProgress st'))"
      using b c up top flt_trans [OF up] by (auto simp: p s)
    moreover have "lastProgress st' = lastProgress st \<or> flt (lastProgress st) (lastProgress st')"
      using c up flt_trans [OF up] by (auto simp: s)
    moreover have "length (percentages es) = length es"
      using d by (simp add: p) (simp add: e es1)
    ultimately show ?thesis
      by blast
  qed
qed

lemma sorted_wrt_flt_fle: "sorted_wrt flt ps \<Longrightarrow> sorted_wrt fle ps"
  by (rule sorted_wrt_mono_rel [of ps flt fle]) (simp_all add: flt_fle)

lemma monitorProgress_percentages:
  "percentages (monitorProgress True totalFrames obs)
     = percentages (snd (ticks totalFrames monitor_start obs)) @ [Fin 100]"
  by (simp add: monitorProgress_def percentages_append)

lemma monitorProgress_nondecreasing:
  "sorted_wrt fle (percentages (monitorProgress opened totalFrames obs))"
proof (cases opened)
  case False
  then show ?thesis by (simp add: monitorProgress_def)
next
  case True
  obtain st' es where t: "ticks totalFrames monitor_start obs = (st', es)"
    by (cases "ticks totalFrames monitor_start obs")
  from ticks_increasing [OF t] have a: "sorted_wrt flt (percentages es)"
    and b: "\<forall>p\<in>set (percentages es). flt (lastProgress monitor_start) p \<and> \<not> fgt p (Fin 100)"
    by simp_all
  from b have "\<forall>p\<in>set (percentages es). fle p (Fin 100)"
    using not_fgt_fle by blast
  with a show ?thesis
    using True
    by (simp add: monitorProgress_percentages t sorted_wrt_append sorted_wrt_flt_fle)
qed

lemma round64_values:
  "round64 25 = Fin 25" "round64 50 = Fin 50" "round64 100 = Fin 100"
  "round64 (1 / 4) = Fin (1 / 4)" "round64 (1 / 2) = Fin (1 / 2)"
  using round64_int [of 25] round64_int [of 50] round64_int [of 100]
    round64_exact [of "1 / 4" 1 "- 2"] round64_exact [of "1 / 2" 1 "- 1"]
  by (simp_all add: power_int_minus_divide)

lemma float64_100: "float64 100 = Fin 100"
  by (simp add: float64_def round64_values)

lemma float64_0: "float64 0 = Fin 0"
  by (simp add: float64_def round64_def)

lemma TrimSpace_plain:
  assumes "s \<noteq> []" and "byte (hd s) < 0x80" and "\<not> IsSpace [hd s]"
    and "byte (last s) < 0x80" and "\<not> IsSpace [last s]"
  shows "TrimSpace s = s"
proof -
  from assms(1) obtain c cs where s: "s = c # cs" by (cases s) auto
  with assms(2) have "DecodeRuneInString (c # cs) = ([c], 1)"
    by (simp add: DecodeRuneInString.simps rune_size_def Let_def)
  with assms(3) s have l: "TrimLeftSpace s = s" by simp
  from assms(1,4) have "DecodeLastRuneInString s = ([last s], 1)"
    by (simp add: DecodeLastRuneInString_def)
  with assms(5) have "TrimRightSpace s = s"
    by (simp add: TrimRightSpace.simps [of s])
  with l show ?thesis by (simp add: TrimSpace_def)
qed

lemma line25: "line_progress 100 ''frame=   25 fps=25 q=30.0 speed=1.0x'' = Some (Fin 25, ''1.0x'')"
proof -
  have t: "TrimSpace ''1.0x'' = ''1.0x''"
    by (rule TrimSpace_plain) (simp_all add: byte_def IsSpace_def)
  show ?thesis
    by (simp add: line_progress_def re_digit_def re_space_def byte_def ParseFloat_def
        decimal_def round64_values float64_100 fgt_def t)
qed

lemma line50: "line_progress 100 ''frame=   50 fps=25 q=30.0 speed=1.2x'' = Some (Fin 50, ''1.2x'')"
proof -
  have t: "TrimSpace ''1.2x'' = ''1.2x''"
    by (rule TrimSpace_plain) (simp_all add: byte_def IsSpace_def)
  show ?thesis
    by (simp add: line_progress_def re_digit_def re_space_def byte_def ParseFloat_def
        decimal_def round64_values float64_100 fgt_def t)
qed

lemma line_banner: "line_progress 100 ''ffmpeg version 6.0'' = None"
  by (simp add: line_progress_def)

lemma line_empty: "line_progress t [] = None"
  by (simp add: line_progress_def)

lemma sample_run_ticks:
  "ticks 100 monitor_start sample_run
     = (\<lparr>position = 93, lastProgress = Fin 50\<rparr>,
        [Progress (Fin 25) ''1.0x'', Progress (Fin 50) ''1.2x''])"
proof -
  have 1: "tick 100 monitor_start (obs_of banner_line)
             = (\<lparr>position = 19, lastProgress = Fin 0\<rparr>, [])"
    by (simp add: tick_def monitor_start_def obs_of_def banner_line_def Seek_from_end_def
        lastLine_of_def dropCR_def line_banner)
  have 2: "tick 100 \<lparr>position = 19, lastProgress = Fin 0\<rparr> (obs_of (banner_line @ frame25_line))
             = (\<lparr>position = 56, lastProgress = Fin 25\<rparr>, [Progress (Fin 25) ''1.0x''])"
    by (simp add: tick_def obs_of_def banner_line_def frame25_line_def Seek_from_end_def
        lastLine_of_def dropCR_def line25 fgt_def)
  have 3: "tick 100 \<lparr>position = 56, lastProgress = Fin 25\<rparr> (obs_of (banner_line @ frame25_line))
             = (\<lparr>position = 56, lastProgress = Fin 25\<rparr>, [])"
    by (simp add: tick_def obs_of_def banner_line_def frame25_line_def Seek_from_end_def
        lastLine_of_def line_empty)
  have 4: "tick 100 \<lparr>position = 56, lastProgress = Fin 25\<rparr>
              (obs_of (banner_line @ frame25_line @ frame50_line))
             = (\<lparr>position = 93, lastProgress = Fin 50\<rparr>, [Progress (Fin 50) ''1.2x''])"
    by (simp add: tick_def obs_of_def banner_line_def frame25_line_def frame50_line_def
        Seek_from_end_def lastLine_of_def dropCR_def line50 fgt_def)
  show ?thesis
    by (simp add: sample_run_def 1 2 3 4)
qed

text \<open>
  Claim C2. A poll emits a sample only when the percentage it computed is greater than
  \<^verbatim>\<open>lastProgress\<close>, and \<^verbatim>\<open>lastProgress\<close> is then that percentage. So the
  percentages of the samples of any sequence of polls increase strictly, from any state;
  the percentages of a whole run of the monitor, final sample included, never decrease,
  and those before the final sample increase strictly, so that no value is repeated.
  Every event of the monitor is a progress sample.
\<close>

theorem monitor_progress_monotone:
  "(tick totalFrames st ob = (st', es) \<longrightarrow>
      (es = [] \<and> lastProgress st' = lastProgress st)
      \<or> (\<exists>speed. es = [Progress (lastProgress st') speed]
            \<and> fgt (lastProgress st') (lastProgress st)))
   \<and> sorted_wrt flt (percentages (snd (ticks totalFrames st obs)))
   \<and> sorted_wrt fle (percentages (monitorProgress opened totalFrames obs))
   \<and> sorted_wrt flt (butlast (percentages (monitorProgress True totalFrames obs)))
   \<and> length (percentages (monitorProgress opened totalFrames obs))
       = length (monitorProgress opened totalFrames obs)"
proof -
  have a: "tick totalFrames st ob = (st', es) \<longrightarrow>
      (es = [] \<and> lastProgress st' = lastProgress st)
      \<or> (\<exists>speed. es = [Progress (lastProgress st') speed]
            \<and> fgt (lastProgress st') (lastProgress st))"
    using tick_cases [of totalFrames st ob st' es] by blast
  have b: "sorted_wrt flt (percentages (snd (ticks totalFrames s obs)))" for s
    using ticks_increasing [of totalFrames s obs] by (cases "ticks totalFrames s obs") simp
  have c: "sorted_wrt fle (percentages (monitorProgress opened totalFrames obs))"
    by (rule monitorProgress_nondecreasing)
  have d: "sorted_wrt flt (butlast (percentages (monitorProgress True totalFrames obs)))"
    by (simp add: monitorProgress_percentages b)
  have e: "length (percentages (monitorProgress opened totalFrames obs))
       = length (monitorProgress opened totalFrames obs)"
    using ticks_increasing [of totalFrames monitor_start obs]
    by (cases "ticks totalFrames monitor_start obs")
       (simp add: monitorProgress_def percentages_append)
  from a b [of st] c d e show ?thesis
    by blast
qed

text \<open>
  A run over a log with lines that match and lines that do not: the samples are 25, 50
  and the final 100.
\<close>

theorem monitor_progress_monotone_witness:
  "tick 100 \<lparr>position = 19, lastProgress = Fin 0\<rparr> (obs_of (banner_line @ frame25_line))
     = (\<lparr>position = 56, lastProgress = Fin 25\<rparr>, [Progress (Fin 25) ''1.0x''])
   \<and> fgt (Fin 25) (Fin 0)
   \<and> monitorProgress True 100 sample_run
       = [Progress (Fin 25) ''1.0x'', Progress (Fin 50) ''1.2x'', Progress (Fin 100) []]
   \<and> sorted_wrt fle [Fin 25, Fin 50, Fin 100]
   \<and> sorted_wrt flt [Fin 25, Fin 50]"
proof -
  have t: "tick 100 \<lparr>position = 19, lastProgress = Fin 0\<rparr> (obs_of (banner_line @ frame25_line))
     = (\<lparr>position = 56, lastProgress = Fin 25\<rparr>, [Progress (Fin 25) ''1.0x''])"
    by (simp add: tick_def obs_of_def banner_line_def frame25_line_def Seek_from_end_def
        lastLine_of_def dropCR_def line25 fgt_def)
  have m: "monitorProgress True 100 sample_run
       = [Progress (Fin 25) ''1.0x'', Progress (Fin 50) ''1.2x'', Progress (Fin 100) []]"
    by (simp add: monitorProgress_def sample_run_ticks)
  from monitor_progress_monotone [of 100 "\<lparr>position = 19, lastProgress = Fin 0\<rparr>"
      "obs_of (banner_line @ frame25_line)" "\<lparr>position = 56, lastProgress = Fin 25\<rparr>"
      "[Progress (Fin 25) ''1.0x'']" sample_run True] t m
  show ?thesis
    by simp
qed

subsection \<open>The percentage computed from a line\<close>

lemma frameRegex_digits:
  "frameRegex l = Some ds \<Longrightarrow> ds \<noteq> [] \<and> list_all re_digit ds"
proof (induction l rule: frameRegex.induct)
  case 1
  then show ?case by simp
next
  case (2 c cs)
  then show ?case
    by (auto simp: Let_def list_all_iff split: if_splits dest: set_takeWhileD)
qed

lemma frameRegex_Contains: "frameRegex l = Some ds \<Longrightarrow> Contains l ''frame=''"
proof (induction l rule: frameRegex.induct)
  case 1
  then show ?case by simp
next
  case (2 c cs)
  show ?case
  proof (cases "take 6 (c # cs) = ''frame=''")
    case True
    have "length ''frame='' = 6" by simp
    with True have "take (length ''frame='') (c # cs) = ''frame=''"
      by (simp only:)
    then show ?thesis
      by (simp only: Contains.simps) simp
  next
    case False
    with "2.prems" have "frameRegex cs = Some ds"
      by (auto simp: Let_def split: if_splits)
    with "2.IH" False have "Contains cs ''frame=''"
      by (auto simp: Let_def split: if_splits)
    then show ?thesis
      by (simp only: Contains.simps) simp
  qed
qed

lemma frameRegex_matches:
  assumes "list_all re_space ws" and "re_digit d"
  shows "frameRegex (pre @ ''frame='' @ ws @ d # rest) \<noteq> None"
proof (induction pre)
  case Nil
  from assms(2) have "\<not> re_space d"
    by (auto simp: re_digit_def re_space_def byte_def)
  then have "dropWhile re_space (ws @ d # rest) = d # rest"
    using assms(1) by (simp add: dropWhile_append2 list_all_iff)
  then show ?case
    using assms(2) by (simp add: Let_def)
next
  case (Cons c pre)
  then show ?case
    by (auto simp: Let_def)
qed

lemma speedRegex_token:
  "speedRegex l = Some tok \<Longrightarrow> tok \<noteq> [] \<and> list_all (\<lambda>b. \<not> re_space b) tok"
proof (induction l rule: speedRegex.induct)
  case 1
  then show ?case by simp
next
  case (2 c cs)
  then show ?case
    by (auto simp: Let_def list_all_iff split: if_splits dest: set_takeWhileD)
qed

lemma speedRegex_matches:
  assumes "\<not> re_space c"
  shows "speedRegex (pre @ ''speed='' @ c # rest) \<noteq> None"
proof (induction pre)
  case Nil
  then show ?case
    using assms by (simp add: Let_def)
next
  case (Cons c pre)
  then show ?case
    by (auto simp: Let_def)
qed

lemma ParseFloat_digits:
  assumes "ds \<noteq> []" and "list_all re_digit ds"
  shows "ParseFloat ds =
     (if round64 (real (decimal ds)) = PInf then Inl ErrRange
      else Inr (round64 (real (decimal ds))))"
  using assms by (simp add: ParseFloat_def split: f64.splits)

lemma line_progress_matched:
  assumes f: "frameRegex l = Some ds" and s: "speedRegex l = Some tok"
  shows "line_progress totalFrames l =
     (if round64 (real (decimal ds)) = PInf then None
      else Some (ceiling100 (fmul (fdiv (round64 (real (decimal ds))) (float64 totalFrames))
                   (Fin 100)), TrimSpace tok))"
proof -
  from frameRegex_digits [OF f] have p: "ParseFloat ds =
     (if round64 (real (decimal ds)) = PInf then Inl ErrRange
      else Inr (round64 (real (decimal ds))))"
    by (intro ParseFloat_digits) simp_all
  show ?thesis
    using frameRegex_Contains [OF f] f s p
    by (simp add: line_progress_def ceiling100_def Let_def)
qed

lemma line_progress_unmatched:
  "frameRegex l = None \<or> speedRegex l = None \<Longrightarrow> line_progress totalFrames l = None"
  by (auto simp: line_progress_def split: option.splits)

lemma tick_no_progress:
  assumes "line_progress totalFrames
             (lastLine_of (drop (Seek_from_end 1024 (length (log_content ob)) (position st))
                (log_content ob))) = None"
  shows "snd (tick totalFrames st ob) = []"
  using assms by (simp add: tick_def Let_def split: option.splits)

text \<open>
  Claim C5, amended. If the last line has \<^verbatim>\<open>frame=\<close> followed by white space and a
  digit, and \<^verbatim>\<open>speed=\<close> followed by a byte that is not white space, both expressions
  match: the frame number is a run of digits and the speed a token without white space.
  Unless the frame number is so large that it rounds to infinity (\<^verbatim>\<open>ParseFloat\<close>
  then reports a range error and the poll ends), the percentage is the frame number
  divided by \<^verbatim>\<open>totalFrames\<close>, times 100, with a ceiling of 100, in binary64
  arithmetic, and the speed is the token without the white space \<^verbatim>\<open>TrimSpace\<close> removes.
  A line on which one of the expressions does not match gives no percentage, and a poll
  whose last line gives none emits nothing. No percentage computed exceeds 100.
\<close>

theorem line_progress_formula:
  "(l = pre @ ''frame='' @ ws @ d # rest \<and> list_all re_space ws \<and> re_digit d
      \<and> l = pre' @ ''speed='' @ c # rest' \<and> \<not> re_space c \<longrightarrow>
      (\<exists>ds tok. frameRegex l = Some ds \<and> ds \<noteq> [] \<and> list_all re_digit ds
         \<and> speedRegex l = Some tok \<and> tok \<noteq> []
         \<and> line_progress totalFrames l =
             (if round64 (real (decimal ds)) = PInf then None
              else Some (ceiling100 (fmul (fdiv (round64 (real (decimal ds)))
                           (float64 totalFrames)) (Fin 100)), TrimSpace tok))))
   \<and> (frameRegex l = None \<or> speedRegex l = None \<longrightarrow>
        line_progress totalFrames l = None)
   \<and> (line_progress totalFrames
         (lastLine_of (drop (Seek_from_end 1024 (length (log_content ob)) (position st))
            (log_content ob))) = None \<longrightarrow>
        snd (tick totalFrames st ob) = [])
   \<and> (line_progress totalFrames l = Some (p, speed) \<longrightarrow> \<not> fgt p (Fin 100))"
proof -
  have a: "l = pre @ ''frame='' @ ws @ d # rest \<and> list_all re_space ws \<and> re_digit d
      \<and> l = pre' @ ''speed='' @ c # rest' \<and> \<not> re_space c \<longrightarrow>
      (\<exists>ds tok. frameRegex l = Some ds \<and> ds \<noteq> [] \<and> list_all re_digit ds
         \<and> speedRegex l = Some tok \<and> tok \<noteq> []
         \<and> line_progress totalFrames l =
             (if round64 (real (decimal ds)) = PInf then None
              else Some (ceiling100 (fmul (fdiv (round64 (real (decimal ds)))
                           (float64 totalFrames)) (Fin 100)), TrimSpace tok)))"
  proof
    assume h: "l = pre @ ''frame='' @ ws @ d # rest \<and> list_all re_space ws \<and> re_digit d
      \<and> l = pre' @ ''speed='' @ c # rest' \<and> \<not> re_space c"
    then obtain ds where f: "frameRegex l = Some ds"
      using frameRegex_matches [of ws d pre rest] by auto
    from h obtain tok where s: "speedRegex l = Some tok"
      using speedRegex_matches [of c pre' rest'] by auto
    from frameRegex_digits [OF f] speedRegex_token [OF s] line_progress_matched [OF f s] f s
    show "\<exists>ds tok. frameRegex l = Some ds \<and> ds \<noteq> [] \<and> list_all re_digit ds
         \<and> speedRegex l = Some tok \<and> tok \<noteq> []
         \<and> line_progress totalFrames l =
             (if round64 (real (decimal ds)) = PInf then None
              else Some (ceiling100 (fmul (fdiv (round64 (real (decimal ds)))
                           (float64 totalFrames)) (Fin 100)), TrimSpace tok))"
      by blast
  qed
  from a line_progress_unmatched [of l totalFrames] tick_no_progress [of totalFrames ob st]
    line_progress_ceiling [of totalFrames l p speed]
  show ?thesis
    by blast
qed

text \<open>
  The scenario of the specification: the line
  \<^verbatim>\<open>frame=  50 fps=30 q=28 size=... speed=1.2x\<close> with 100 frames in total gives 50
  percent and the speed \<^verbatim>\<open>1.2x\<close>; a line without speed gives nothing.
\<close>

lemma spec_line:
  "line_progress 100 ''frame=  50 fps=30 q=28 size=... speed=1.2x'' = Some (Fin 50, ''1.2x'')"
proof -
  have t: "TrimSpace ''1.2x'' = ''1.2x''"
    by (rule TrimSpace_plain) (simp_all add: byte_def IsSpace_def)
  show ?thesis
    by (simp add: line_progress_def re_digit_def re_space_def byte_def ParseFloat_def
        decimal_def round64_values float64_100 fgt_def t)
qed

theorem line_progress_formula_witness:
  "''frame=  50 fps=30 q=28 size=... speed=1.2x''
      = [] @ ''frame='' @ ''  '' @ CHR ''5'' # ''0 fps=30 q=28 size=... speed=1.2x''
   \<and> list_all re_space ''  '' \<and> re_digit (CHR ''5'')
   \<and> ''frame=  50 fps=30 q=28 size=... speed=1.2x''
      = ''frame=  50 fps=30 q=28 size=... '' @ ''speed='' @ CHR ''1'' # ''.2x''
   \<and> \<not> re_space (CHR ''1'')
   \<and> frameRegex ''frame=  50 fps=30 q=28 size=... speed=1.2x'' = Some ''50''
   \<and> speedRegex ''frame=  50 fps=30 q=28 size=... speed=1.2x'' = Some ''1.2x''
   \<and> line_progress 100 ''frame=  50 fps=30 q=28 size=... speed=1.2x'' = Some (Fin 50, ''1.2x'')
   \<and> \<not> fgt (Fin 50) (Fin 100)
   \<and> speedRegex ''frame=  50 fps=30'' = None
   \<and> line_progress 100 ''frame=  50 fps=30'' = None
   \<and> snd (tick 100 monitor_start (obs_of ''frame=  50 fps=30'')) = []"
proof -
  have 1: "list_all re_space ''  ''" "re_digit (CHR ''5'')" "\<not> re_space (CHR ''1'')"
    by (simp_all add: re_space_def re_digit_def byte_def)
  have 2: "frameRegex ''frame=  50 fps=30 q=28 size=... speed=1.2x'' = Some ''50''"
    by (simp add: re_space_def re_digit_def byte_def)
  have 3: "speedRegex ''frame=  50 fps=30 q=28 size=... speed=1.2x'' = Some ''1.2x''"
    by (simp add: re_space_def)
  have 4: "speedRegex ''frame=  50 fps=30'' = None"
    by simp
  have 5: "lastLine_of (drop (Seek_from_end 1024 (length (log_content (obs_of ''frame=  50 fps=30'')))
      (position monitor_start)) (log_content (obs_of ''frame=  50 fps=30''))) = ''frame=  50 fps=30''"
    by (simp add: obs_of_def monitor_start_def Seek_from_end_def lastLine_of_def dropCR_def)
  from line_progress_formula [of "''frame=  50 fps=30 q=28 size=... speed=1.2x''" "[]" "''  ''"
      "CHR ''5''" "''0 fps=30 q=28 size=... speed=1.2x''" "''frame=  50 fps=30 q=28 size=... ''"
      "CHR ''1''" "''.2x''" 100 "obs_of ''frame=  50 fps=30''" monitor_start "Fin 50" "''1.2x''"]
    line_progress_formula [of "''frame=  50 fps=30''" _ _ _ _ _ _ _ 100
      "obs_of ''frame=  50 fps=30''" monitor_start]
    1 2 3 4 5 spec_line
  show ?thesis
    by simp
qed

lemma decimal_snoc: "decimal (s @ [c]) = 10 * decimal s + (byte c - 0x30)"
  by (simp add: decimal_def)

lemma decimal_nines: "decimal (replicate n (CHR ''9'')) = 10 ^ n - 1"
proof (induction n)
  case 0
  then show ?case by (simp add: decimal_def)
next
  case (Suc n)
  have "(1::nat) \<le> 10 ^ n" by simp
  then have "10 * (10 ^ n - 1) + 9 = (10::nat) ^ Suc n - 1"
    by (simp add: algebra_simps)
  moreover have "replicate (Suc n) (CHR ''9'') = replicate n (CHR ''9'') @ [CHR ''9'']"
    by (simp add: replicate_append_same)
  ultimately show ?case
    using Suc.IH by (simp only: decimal_snoc) (simp add: byte_def)
qed

lemma speedRegex_skip:
  "CHR ''s'' \<notin> set xs \<Longrightarrow> speedRegex (xs @ ys) = speedRegex ys"
  by (induction xs) (auto simp: Let_def)

lemma huge_frame: "frameRegex huge_line = Some (replicate 310 (CHR ''9''))"
proof -
  have "takeWhile re_digit (replicate 310 (CHR ''9'') @ '' speed=1x'') = replicate 310 (CHR ''9'')"
    by (simp add: takeWhile_append2 re_digit_def byte_def takeWhile_tail)
  moreover have "dropWhile re_space (replicate 310 (CHR ''9'') @ '' speed=1x'')
      = replicate 310 (CHR ''9'') @ '' speed=1x''"
    by (simp add: re_space_def dropWhile_append3)
  ultimately show ?thesis
    by (simp add: huge_line_def Let_def)
qed

lemma huge_speed: "speedRegex huge_line = Some ''1x''"
proof -
  have "speedRegex ((''frame='' @ replicate 310 (CHR ''9'') @ '' '') @ ''speed=1x'')
      = speedRegex ''speed=1x''"
    by (rule speedRegex_skip) auto
  then show ?thesis
    by (simp add: huge_line_def re_space_def)
qed

lemma huge_range: "round64 (real (decimal (replicate 310 (CHR ''9'')))) = PInf"
proof (rule round64_overflow)
  have "(2::nat) ^ 1024 \<le> 10 ^ 310 - 1" by simp
  then have "real (2 ^ 1024) \<le> real (10 ^ 310 - 1)"
    by (rule of_nat_mono)
  then show "2 ^ 1024 \<le> real (decimal (replicate 310 (CHR ''9'')))"
    by (simp only: decimal_nines of_nat_power of_nat_numeral)
qed

text \<open>
  Claim C5 as stated fails on \<open>huge_line\<close>: both expressions match, and no
  percentage is computed, because the frame number of 310 digits is out of the range of
  binary64.
\<close>

theorem line_progress_range_counterexample:
  "frameRegex huge_line = Some (replicate 310 (CHR ''9''))
   \<and> speedRegex huge_line = Some ''1x''
   \<and> line_progress 100 huge_line = None"
  using line_progress_matched [OF huge_frame huge_speed, of 100]
  by (simp add: huge_frame huge_speed huge_range)

subsection \<open>A total of zero frames\<close>

lemma ParseFloat_value:
  assumes "ParseFloat ds = Inr v"
  shows "\<exists>a. v = Fin a \<and> 0 \<le> a"
proof -
  from assms have "v = round64 (real (decimal ds))" and "v \<noteq> PInf"
    by (auto simp: ParseFloat_def split: if_splits f64.splits)
  with round64_nonneg [of "real (decimal ds)"] show ?thesis
    by auto
qed

lemma line_progress_zero:
  "line_progress 0 l = None
   \<or> (\<exists>speed. line_progress 0 l = Some (NaN, speed))
   \<or> (\<exists>speed. line_progress 0 l = Some (Fin 100, speed))"
proof (cases "line_progress 0 l")
  case None
  then show ?thesis by simp
next
  case (Some r)
  then obtain ds tok v where v: "ParseFloat ds = Inr v"
    and r: "r = (ceiling100 (fmul (fdiv v (float64 0)) (Fin 100)), TrimSpace tok)"
    by (auto simp: line_progress_def ceiling100_def Let_def
        split: if_splits option.splits sum.splits)
  from ParseFloat_value [OF v] obtain a where a: "v = Fin a" "0 \<le> a"
    by blast
  show ?thesis
  proof (cases "a = 0")
    case True
    then show ?thesis
      using Some r a by (simp add: float64_0 ceiling100_def fgt_def)
  next
    case False
    with a have "0 < a" by simp
    then show ?thesis
      using Some r a by (simp add: float64_0 ceiling100_def fgt_def)
  qed
qed

lemma flt_NaN_right: "\<not> flt x NaN"
  by (cases x) simp_all

lemma tick_zero:
  "snd (tick 0 st ob) = [] \<or> (\<exists>speed. snd (tick 0 st ob) = [Progress (Fin 100) speed])"
proof -
  define l where "l = lastLine_of (drop (Seek_from_end 1024 (length (log_content ob))
      (position st)) (log_content ob))"
  from line_progress_zero [of l] show ?thesis
  proof (elim disjE exE)
    assume "line_progress 0 l = None"
    then show ?thesis
      by (simp add: tick_def Let_def l_def split: option.splits)
  next
    fix speed assume "line_progress 0 l = Some (NaN, speed)"
    then show ?thesis
      by (simp add: tick_def Let_def l_def [symmetric] fgt_def flt_NaN_right split: option.splits)
  next
    fix speed assume "line_progress 0 l = Some (Fin 100, speed)"
    then show ?thesis
      by (simp add: tick_def Let_def l_def [symmetric] split: option.splits)
  qed
qed

lemma zero_examples:
  "line_progress 0 ''frame=  50 fps=30 q=28 size=... speed=1.2x'' = Some (Fin 100, ''1.2x'')"
  "line_progress 0 ''frame=   0 fps=0.0 q=0.0 size=... speed=0.0x'' = Some (NaN, ''0.0x'')"
proof -
  have t: "TrimSpace ''1.2x'' = ''1.2x''" "TrimSpace ''0.0x'' = ''0.0x''"
    by (rule TrimSpace_plain, simp_all add: byte_def IsSpace_def)+
  show "line_progress 0 ''frame=  50 fps=30 q=28 size=... speed=1.2x'' = Some (Fin 100, ''1.2x'')"
    by (simp add: line_progress_def re_digit_def re_space_def byte_def ParseFloat_def
        decimal_def round64_values float64_0 fgt_def t)
  show "line_progress 0 ''frame=   0 fps=0.0 q=0.0 size=... speed=0.0x'' = Some (NaN, ''0.0x'')"
    by (simp add: line_progress_def re_digit_def re_space_def byte_def ParseFloat_def
        decimal_def round64_def float64_0 fgt_def t)
qed

text \<open>
  Claim C3. With \<^verbatim>\<open>totalFrames = 0\<close> the division is a division of binary64 values,
  which has a value for every dividend: NaN for frame 0 and the positive infinity for
  any other frame. The percentage computed from a line is then NaN or, by the ceiling,
  100; a poll emits nothing (NaN is greater than nothing) or the one sample 100. Both
  happen: the line at frame 50 gives the sample 100, the line at frame 0 gives none.
\<close>

theorem zero_totalFrames_no_fault:
  "(line_progress 0 l = None
      \<or> (\<exists>speed. line_progress 0 l = Some (NaN, speed))
      \<or> (\<exists>speed. line_progress 0 l = Some (Fin 100, speed)))
   \<and> (snd (tick 0 st ob) = [] \<or> (\<exists>speed. snd (tick 0 st ob) = [Progress (Fin 100) speed]))
   \<and> line_progress 0 ''frame=  50 fps=30 q=28 size=... speed=1.2x'' = Some (Fin 100, ''1.2x'')
   \<and> line_progress 0 ''frame=   0 fps=0.0 q=0.0 size=... speed=0.0x'' = Some (NaN, ''0.0x'')
   \<and> snd (tick 0 monitor_start (obs_of ''frame=  50 fps=30 q=28 size=... speed=1.2x''))
       = [Progress (Fin 100) ''1.2x'']
   \<and> snd (tick 0 monitor_start (obs_of ''frame=   0 fps=0.0 q=0.0 size=... speed=0.0x'')) = []"
proof -
  have a: "snd (tick 0 monitor_start (obs_of ''frame=  50 fps=30 q=28 size=... speed=1.2x''))
       = [Progress (Fin 100) ''1.2x'']"
    by (simp add: tick_def obs_of_def monitor_start_def Seek_from_end_def lastLine_of_def
        dropCR_def zero_examples fgt_def)
  have b: "snd (tick 0 monitor_start (obs_of ''frame=   0 fps=0.0 q=0.0 size=... speed=0.0x'')) = []"
    by (simp add: tick_def obs_of_def monitor_start_def Seek_from_end_def lastLine_of_def
        dropCR_def zero_examples fgt_def)
  from line_progress_zero [of l] tick_zero [of st ob] zero_examples a b show ?thesis
    by blast
qed

subsection \<open>A log shorter than the window\<close>

text \<open>
  Where a poll starts to read: 1024 bytes before the end of a log of at least 1024
  bytes, and where the previous poll stopped in a shorter log.
\<close>

lemma Seek_from_end_window:
  "1024 \<le> length content \<Longrightarrow>
     drop (Seek_from_end 1024 (length content) pos) content
       = drop (length content - 1024) content"
  by (simp add: Seek_from_end_def)

lemma Seek_from_end_short:
  "length content < 1024 \<Longrightarrow>
     drop (Seek_from_end 1024 (length content) pos) content = drop pos content"
  by (simp add: Seek_from_end_def)

lemma tick_position:
  "read_fails_after ob = None \<Longrightarrow>
     position (fst (tick totalFrames st ob))
       = max (Seek_from_end 1024 (length (log_content ob)) (position st))
           (length (log_content ob))"
  by (auto simp: tick_def Let_def max_def split: option.splits prod.splits)

text \<open>
  Claim C4, on the code. On a log shorter than 1024 bytes the seek fails and leaves the
  read position where the previous poll ended, so a poll scans only the bytes appended
  since. Here the second poll scans \<^verbatim>\<open>q=30.0 speed=1.0x\<close>, finds no frame marker and
  emits nothing; read from the start of the file, as a seek clamped to byte 0 would make
  it, the last line gives the sample 25.
\<close>

theorem short_log_read_from_old_position:
  "ticks 100 monitor_start [obs_of partial_log, obs_of grown_log]
     = (\<lparr>position = length grown_log, lastProgress = Fin 0\<rparr>, [])
   \<and> length grown_log < 1024
   \<and> lastLine_of (drop (position (fst (tick 100 monitor_start (obs_of partial_log)))) grown_log)
       = ''q=30.0 speed=1.0x''
   \<and> line_progress 100 (lastLine_of grown_log) = Some (Fin 25, ''1.0x'')"
proof -
  have 1: "tick 100 monitor_start (obs_of partial_log)
      = (\<lparr>position = 19, lastProgress = Fin 0\<rparr>, [])"
    by (simp add: tick_def obs_of_def monitor_start_def partial_log_def Seek_from_end_def
        lastLine_of_def dropCR_def line_progress_def re_space_def re_digit_def byte_def)
  have 2: "tick 100 \<lparr>position = 19, lastProgress = Fin 0\<rparr> (obs_of grown_log)
      = (\<lparr>position = 36, lastProgress = Fin 0\<rparr>, [])"
    by (simp add: tick_def obs_of_def partial_log_def grown_log_def Seek_from_end_def
        lastLine_of_def dropCR_def line_progress_def)
  have 3: "lastLine_of grown_log = ''frame=   25 fps=25 q=30.0 speed=1.0x''"
    by (simp add: lastLine_of_def grown_log_def partial_log_def dropCR_def)
  have 4: "lastLine_of (drop 19 grown_log) = ''q=30.0 speed=1.0x''"
    by (simp add: lastLine_of_def grown_log_def partial_log_def dropCR_def)
  show ?thesis
    by (simp add: 1 2 3 4 line25) (simp add: grown_log_def partial_log_def)
qed

section \<open>The conversion supervisor\<close>

subsection \<open>The events of a call and of its monitor\<close>

lemma monitorProgress_opened:
  "monitorProgress True totalFrames obs
     = snd (ticks totalFrames monitor_start obs) @ [Progress (Fin 100) []]"
  by (simp add: monitorProgress_def)














subsection \<open>The order of the last events of a successful call\<close>





















subsection \<open>Failures of the encoder\<close>

lemma updateProgressVideo_cleared:
  assumes "progressVideo s = None"
  shows "progressVideo (updateProgressVideo s)
           = (if selectedVideos s = [] then None else Some (hd (selectedVideos s)))"
    and "selectedVideos (updateProgressVideo s) = tl (selectedVideos s)"
proof -
  show "progressVideo (updateProgressVideo s)
           = (if selectedVideos s = [] then None else Some (hd (selectedVideos s)))"
    using assms updateProgressVideo_idle(1) [of s] updateProgressVideo_empty [of s]
    by (cases "selectedVideos s = []") simp_all
  show "selectedVideos (updateProgressVideo s) = tl (selectedVideos s)"
    using assms updateProgressVideo_idle(2) [of s] updateProgressVideo_empty [of s]
    by (cases "selectedVideos s = []") simp_all
qed







lemma running_A_state:
  "progressVideo running_A = Some videoA" "selectedVideos running_A = [videoB]"
  by (simp_all add: running_A_def updateProgressVideo_def startConversion_def idle_AB_def)


subsection \<open>The front end after a job ends\<close>

text \<open>
  The scenario of the specification: when \<open>A\<close> completes, the completion event starts
  \<open>B\<close>, and the next-job event that follows it changes nothing.
\<close>

lemma completion_starts_next_job:
  "progressVideo (on_conversion_complete running_A ''/out/A_av1.mp4'') = Some videoB
   \<and> selectedVideos (on_conversion_complete running_A ''/out/A_av1.mp4'') = []
   \<and> on_conversion_next (on_conversion_complete running_A ''/out/A_av1.mp4'')
       = on_conversion_complete running_A ''/out/A_av1.mp4''"
proof -
  have "progressVideo (running_A\<lparr>progressVideo := None\<rparr>) = None"
    by simp
  from updateProgressVideo_cleared [OF this]
  show ?thesis
    by (simp add: on_conversion_complete_def on_conversion_next_def running_A_state
        updateProgressVideo_twice)
qed

text \<open>
  After the encoder has exited with a failure the front end receives both the error
  event and the rejection of its call. Each of the two clears the running job and starts
  the head of the pending list: with two jobs pending both are started, the second while
  the first is being converted.
\<close>

lemma failure_handled_twice:
  assumes "selectedVideos s = b # c # rest" and "destinationFolder s \<noteq> []"
  shows "convertCalls (on_ConvertVideo_rejected (on_conversion_error s event_message) message)
           = convertCalls s @ [(fullPath b, destinationFolder s, frameCount b),
                               (fullPath c, destinationFolder s, frameCount c)]"
  using assms
  by (simp add: on_ConvertVideo_rejected_def on_conversion_error_def showError_def
      updateProgressVideo_def startConversion_def)

text \<open>The front end while it converts \<open>A\<close>, and the call whose encoder exits with status 1.\<close>

lemma converting_A_state:
  "progressVideo (ui converting_A) = Some videoA"
  "selectedVideos (ui converting_A) = [videoB, videoC]"
  "destinationFolder (ui converting_A) = ''/out''"
  "convertCalls (ui converting_A) = [(''/in/A.mov'', ''/out'', 100)]"
  by (simp_all add: converting_A_def idle_ABC_def idle_AB_def updateProgressVideo_def
      startConversion_def videoA_def)

lemma exit_failure_run:
  "ConvertVideo exit_failure_env ''/in/A.mov'' ''/out'' 100
     = \<lparr>returned = Some ''FFmpeg error: exit status 1'',
        emitted = [ConversionError ''exit status 1''], launches = 1, monitored = True\<rparr>"
  by (simp add: ConvertVideo_def exit_failure_env_def success_env_def)

text \<open>
  A call that ends without a failure of a running encoder (it succeeds, or it fails
  before the encoder runs) makes the front end start one job at most.
\<close>

lemma call_finished_one_job:
  assumes "returned r = None \<and> emitted r = [Complete path, Next]
     \<or> emitted r = []"
  shows "length (convertCalls (call_finished s r)) \<le> Suc (length (convertCalls s))"
proof -
  have u: "length (convertCalls (updateProgressVideo x)) \<le> Suc (length (convertCalls x))" for x
    by (rule updateProgressVideo_calls_le)
  from assms show ?thesis
  proof
    assume "returned r = None \<and> emitted r = [Complete path, Next]"
    then show ?thesis
      using u [of "s\<lparr>progressVideo := None\<rparr>"]
      by (simp add: call_finished_def on_conversion_complete_def on_conversion_next_def
          updateProgressVideo_twice)
  next
    assume "emitted r = []"
    then show ?thesis
      using u [of "(showError s (''Conversion Error: '' @ m))\<lparr>progressVideo := None\<rparr>" for m]
      by (cases "returned r")
        (simp_all add: call_finished_def on_ConvertVideo_rejected_def showError_def)
  qed
qed

lemma ConvertVideo_one_job:
  assumes "wait_error env = None \<or> mkdir_error env \<noteq> None \<or> create_error env \<noteq> None
     \<or> start_error env \<noteq> None"
  shows "length (convertCalls (call_finished s (ConvertVideo env i f t)))
           \<le> Suc (length (convertCalls s))"
proof -
  have "returned (ConvertVideo env i f t) = None
      \<and> emitted (ConvertVideo env i f t) = [Complete (outputPath i f), Next]
     \<or> emitted (ConvertVideo env i f t) = []"
    using assms by (auto simp: ConvertVideo_def split: option.splits)
  then show ?thesis
    by (rule call_finished_one_job)
qed

text \<open>
  Claim C1, on the code. The guard of \<open>updateProgressVideo\<close> holds, but
  \<open>progressVideo\<close> does not stay set for as long as a job is converted. While \<open>A\<close> is
  converted with \<open>B\<close> and \<open>C\<close> pending, one call is in flight. When the encoder of \<open>A\<close>
  exits with status 1 the call emits the error event and returns the error (lines
  464-469). The handler of the event clears \<open>progressVideo\<close> and starts \<open>B\<close>; the
  \<^verbatim>\<open>catch\<close> block then clears \<open>progressVideo\<close>, which is \<open>B\<close>, and starts \<open>C\<close>. Two
  calls are then in flight: \<open>B\<close> and \<open>C\<close> are converted at the same time. The same
  three calls are issued when the \<^verbatim>\<open>catch\<close> block runs before the handler.
\<close>

theorem encoder_failure_starts_two_jobs:
  "in_flight converting_A = 1
   \<and> progressVideo (ui converting_A) = Some videoA
   \<and> selectedVideos (ui converting_A) = [videoB, videoC]
   \<and> ConvertVideo exit_failure_env ''/in/A.mov'' ''/out'' 100
       = \<lparr>returned = Some ''FFmpeg error: exit status 1'',
          emitted = [ConversionError ''exit status 1''], launches = 1, monitored = True\<rparr>
   \<and> convertCalls
        (ui (call_returns converting_A (ConvertVideo exit_failure_env ''/in/A.mov'' ''/out'' 100)))
       = [(''/in/A.mov'', ''/out'', 100), (''/in/B.mov'', ''/out'', 50), (''/in/C.mov'', ''/out'', 25)]
   \<and> progressVideo
        (ui (call_returns converting_A (ConvertVideo exit_failure_env ''/in/A.mov'' ''/out'' 100)))
       = Some videoC
   \<and> selectedVideos
        (ui (call_returns converting_A (ConvertVideo exit_failure_env ''/in/A.mov'' ''/out'' 100)))
       = []
   \<and> in_flight (call_returns converting_A (ConvertVideo exit_failure_env ''/in/A.mov'' ''/out'' 100))
       = 2
   \<and> convertCalls
        (on_conversion_error
           (on_ConvertVideo_rejected (ui converting_A) ''FFmpeg error: exit status 1'')
           ''exit status 1'')
       = [(''/in/A.mov'', ''/out'', 100), (''/in/B.mov'', ''/out'', 50), (''/in/C.mov'', ''/out'', 25)]"
  by (simp add: in_flight_def call_returns_def call_finished_def exit_failure_run
      on_conversion_error_def on_ConvertVideo_rejected_def showError_def
      converting_A_def idle_ABC_def idle_AB_def updateProgressVideo_def
      startConversion_def videoA_def videoB_def videoC_def)

section \<open>The media prober\<close>

lemma decode_string_None: "decode_string m = None \<longleftrightarrow> string_mistyped m"
  by (cases m) simp_all

lemma decode_stream_None: "decode_stream e = None \<longleftrightarrow> stream_mistyped e"
proof (cases e)
  case (StreamObject d)
  show ?thesis
    unfolding StreamObject stream_mistyped.simps decode_string_None [symmetric]
    by (auto split: option.splits)
qed simp_all

lemma those_None: "those xs = None \<longleftrightarrow> None \<in> set xs"
  by (induction xs) (auto split: option.splits)

lemma those_length: "those xs = Some ys \<Longrightarrow> length ys = length xs"
  by (induction xs arbitrary: ys) (auto split: option.splits)

lemma decode_streams_None:
  "decode_streams m = None \<longleftrightarrow>
     (case m of Mistyped \<Rightarrow> True | Member elements \<Rightarrow> list_ex stream_mistyped elements
      | _ \<Rightarrow> False)"
proof (cases m)
  case (Member elements)
  have "None \<in> set (map decode_stream elements) \<longleftrightarrow> list_ex stream_mistyped elements"
    unfolding list_ex_iff decode_stream_None [symmetric] by force
  then show ?thesis
    by (simp add: Member those_None)
qed simp_all

lemma decode_streams_length:
  "decode_streams m = Some s \<Longrightarrow>
     length s = (case m of Member elements \<Rightarrow> length elements | _ \<Rightarrow> 0)"
  by (cases m) (auto dest: those_length)

lemma decode_format_None:
  "decode_format m = None \<longleftrightarrow>
     (case m of Mistyped \<Rightarrow> True
      | Member fd \<Rightarrow> string_mistyped (format_duration fd) \<or> string_mistyped (format_size fd)
      | _ \<Rightarrow> False)"
  by (cases m) (auto simp: decode_string_None [symmetric] split: option.splits)

lemma Unmarshal_error:
  "(\<exists>err. Unmarshal doc = Inl err) \<longleftrightarrow> doc = NotJSON \<or> doc_mistyped doc"
proof (cases doc)
  case (DocObject d)
  have "(\<exists>err. Unmarshal (DocObject d) = Inl err)
      \<longleftrightarrow> decode_streams (streams d) = None \<or> decode_format (format d) = None"
    by (auto split: option.splits)
  then show ?thesis
    by (simp only: DocObject decode_streams_None decode_format_None doc_mistyped.simps) simp
qed simp_all

lemma Unmarshal_streams:
  "Unmarshal doc = Inr result \<Longrightarrow> length (Streams result) = stream_count doc"
proof (cases doc)
  case (DocObject d)
  assume "Unmarshal doc = Inr result"
  then obtain s where "decode_streams (streams d) = Some s" and "Streams result = s"
    by (auto simp: DocObject split: option.splits)
  then show ?thesis
    using decode_streams_length [of "streams d" s] by (simp add: DocObject)
qed auto

lemma getVideoInfo_error:
  "(\<exists>err. getVideoInfo fm filePath run = Inl err) \<longleftrightarrow>
     (\<exists>err stderr. run = RunFailed err stderr)
     \<or> (\<exists>doc. run = RunSucceeded doc
           \<and> (doc = NotJSON \<or> doc_mistyped doc \<or> stream_count doc = 0))"
proof (cases run)
  case (RunFailed err stderr)
  then show ?thesis
    by (simp add: getVideoInfo_def)
next
  case (RunSucceeded doc)
  show ?thesis
  proof (cases "Unmarshal doc")
    case (Inl e)
    then have "doc = NotJSON \<or> doc_mistyped doc"
      using Unmarshal_error [of doc] by auto
    then show ?thesis
      using Inl by (auto simp: getVideoInfo_def RunSucceeded)
  next
    case (Inr result)
    then have n: "\<not> (doc = NotJSON \<or> doc_mistyped doc)"
      using Unmarshal_error [of doc] by auto
    from Inr have "length (Streams result) = stream_count doc"
      by (rule Unmarshal_streams)
    then show ?thesis
      using Inr n by (auto simp: getVideoInfo_def RunSucceeded)
  qed
qed

lemma getVideoInfo_descriptor:
  assumes "getVideoInfo fm filePath run = Inr info"
  shows "fullPath info = filePath \<and> (\<exists>doc. run = RunSucceeded doc \<and> 0 < stream_count doc)"
proof -
  from assms obtain doc result where r: "run = RunSucceeded doc" and u: "Unmarshal doc = Inr result"
    and l: "length (Streams result) \<noteq> 0"
    by (auto simp: getVideoInfo_def split: probe_run.splits sum.splits if_splits)
  from Unmarshal_streams [OF u] l have "0 < stream_count doc" by simp
  moreover from assms r u l have "fullPath info = filePath"
    by (auto simp: getVideoInfo_def)
  ultimately show ?thesis
    using r by simp
qed

lemma getVideoInfo_no_streams:
  assumes "stream_count doc = 0" and "doc \<noteq> NotJSON" and "\<not> doc_mistyped doc"
  shows "getVideoInfo fm filePath (RunSucceeded doc) = Inl NoStreams"
proof -
  from assms(2,3) obtain result where u: "Unmarshal doc = Inr result"
    using Unmarshal_error [of doc] by (cases "Unmarshal doc") auto
  with Unmarshal_streams [OF u] assms(1) show ?thesis
    by (simp add: getVideoInfo_def)
qed

text \<open>
  Claim C8, amended. \<^verbatim>\<open>getVideoInfo\<close> returns an error, and no descriptor, exactly
  when the run of the metadata tool fails, when its standard output is not JSON, when
  the document has a value of a type the structure cannot take, or when the document has
  no media stream; in every other case it returns a descriptor, whose path is the path
  given. The error names the condition: the error of the run with the standard error of
  the tool, the syntax error or the type error of the decoder, or the missing streams.
\<close>

theorem getVideoInfo_failure_conditions:
  "((\<exists>err. getVideoInfo fm filePath run = Inl err) \<longleftrightarrow>
      (\<exists>err stderr. run = RunFailed err stderr)
      \<or> (\<exists>doc. run = RunSucceeded doc
            \<and> (doc = NotJSON \<or> doc_mistyped doc \<or> stream_count doc = 0)))
   \<and> (getVideoInfo fm filePath run = Inr info \<longrightarrow>
        fullPath info = filePath \<and> (\<exists>doc. run = RunSucceeded doc \<and> 0 < stream_count doc))
   \<and> getVideoInfo fm filePath (RunFailed err stderr) = Inl (FFprobeError err stderr)
   \<and> getVideoInfo fm filePath (RunSucceeded NotJSON) = Inl (JSONError SyntaxError)
   \<and> (doc_mistyped doc \<longrightarrow>
        getVideoInfo fm filePath (RunSucceeded doc) = Inl (JSONError UnmarshalTypeError))
   \<and> (stream_count doc = 0 \<and> doc \<noteq> NotJSON \<and> \<not> doc_mistyped doc \<longrightarrow>
        getVideoInfo fm filePath (RunSucceeded doc) = Inl NoStreams)"
proof -
  have m: "doc_mistyped doc \<longrightarrow>
        getVideoInfo fm filePath (RunSucceeded doc) = Inl (JSONError UnmarshalTypeError)"
  proof
    assume d: "doc_mistyped doc"
    then obtain e where e: "Unmarshal doc = Inl e"
      using Unmarshal_error [of doc] by auto
    from d have "doc \<noteq> NotJSON" by auto
    with e have "e = UnmarshalTypeError"
      by (cases doc) (auto split: option.splits)
    with e show "getVideoInfo fm filePath (RunSucceeded doc) = Inl (JSONError UnmarshalTypeError)"
      by (simp add: getVideoInfo_def)
  qed
  have f: "getVideoInfo fm filePath (RunFailed err stderr) = Inl (FFprobeError err stderr)"
    and j: "getVideoInfo fm filePath (RunSucceeded NotJSON) = Inl (JSONError SyntaxError)"
    by (simp_all add: getVideoInfo_def)
  from getVideoInfo_error [of fm filePath run] getVideoInfo_descriptor [of fm filePath run info]
    getVideoInfo_no_streams [of doc fm filePath] m f j
  show ?thesis
    by blast
qed

text \<open>
  A file with one video stream of 100 frames; the same document with the number of
  frames as a JSON number; and the document \<^verbatim>\<open>null\<close>, which has no stream.
\<close>

lemma good_doc_probe:
  "getVideoInfo plain_formatting ''/in/A.mov'' (RunSucceeded good_doc)
     = Inr \<lparr>fullPath = ''/in/A.mov'', duration = ''4.000000'', frameCount = 100,
            codec = ''h264'', size' = ''1048576''\<rparr>"
  by (simp add: getVideoInfo_def good_doc_def h264_stream_def plain_formatting_def Atoi_def
      re_digit_def byte_def decimal_def)

theorem getVideoInfo_failure_conditions_witness:
  "getVideoInfo plain_formatting ''/in/A.mov'' (RunSucceeded good_doc)
     = Inr \<lparr>fullPath = ''/in/A.mov'', duration = ''4.000000'', frameCount = 100,
            codec = ''h264'', size' = ''1048576''\<rparr>
   \<and> stream_count good_doc = 1
   \<and> doc_mistyped mistyped_doc
   \<and> getVideoInfo plain_formatting ''/in/A.mov'' (RunSucceeded mistyped_doc)
        = Inl (JSONError UnmarshalTypeError)
   \<and> stream_count DocNull = 0 \<and> DocNull \<noteq> NotJSON \<and> \<not> doc_mistyped DocNull
   \<and> getVideoInfo plain_formatting ''/in/A.mov'' (RunSucceeded DocNull) = Inl NoStreams"
proof -
  have c: "stream_count good_doc = 1"
    by (simp add: good_doc_def)
  have d: "doc_mistyped mistyped_doc"
    by (simp add: mistyped_doc_def h264_stream_def)
  have n: "stream_count DocNull = 0" "DocNull \<noteq> NotJSON" "\<not> doc_mistyped DocNull"
    by simp_all
  from getVideoInfo_failure_conditions [of plain_formatting "''/in/A.mov''"
      "RunSucceeded good_doc" "\<lparr>fullPath = ''/in/A.mov'', duration = ''4.000000'',
        frameCount = 100, codec = ''h264'', size' = ''1048576''\<rparr>" _ _ mistyped_doc]
    getVideoInfo_failure_conditions [of plain_formatting "''/in/A.mov''" _ _ _ _ DocNull]
    good_doc_probe c d n
  show ?thesis
    by simp
qed

text \<open>
  Claim C8 as stated fails on \<open>mistyped_doc\<close>: the tool succeeded, its output is JSON
  and has one stream, and \<^verbatim>\<open>getVideoInfo\<close> returns the type error of the decoder.
\<close>

theorem mistyped_field_counterexample:
  "getVideoInfo plain_formatting ''/in/A.mov'' (RunSucceeded mistyped_doc)
     = Inl (JSONError UnmarshalTypeError)
   \<and> mistyped_doc \<noteq> NotJSON
   \<and> stream_count mistyped_doc = 1"
  by (simp add: getVideoInfo_def mistyped_doc_def h264_stream_def)

end
